theory Spec2Isabelle
  imports Main "HOL-Library.AList"
begin

section \<open>The vault updater (update\_vods.ts)\<close>

text \<open>
  The updater logs in to the vault, lists the recorded videos of a user, fetches the file
  information of the entries that need it, merges everything with the snapshot written by
  the previous run and writes the new snapshot. This theory embeds the script as HOL
  functions: the remote API, the clock and the snapshot file are inputs, the requests for
  file information are recorded in a log, and every \<open>throw\<close> is a value of type \<open>error\<close>.
  Cookies and request headers are not modelled: no value computed below depends on them.
\<close>

subsection \<open>JavaScript values\<close>

text \<open>
  The values stored in the fields of an entry are the primitive values that \<open>JSON.parse\<close>
  produces, and \<open>undefined\<close>. Numbers are modelled as integers (identifiers, epoch seconds,
  byte counts); fractions, \<open>NaN\<close> and the infinities are not values of the model.
\<close>

datatype jsval = Undefined | Null | Bool bool | Num int | Str string

text \<open>Truthiness, as tested by \<open>if (x)\<close> and \<open>!x\<close>.\<close>

fun truthy :: "jsval \<Rightarrow> bool" where
  "truthy Undefined = False"
| "truthy Null = False"
| "truthy (Bool b) = b"
| "truthy (Num n) = (n \<noteq> 0)"
| "truthy (Str s) = (s \<noteq> [])"

text \<open>The operator \<open>a ?? b\<close>: \<open>b\<close> when \<open>a\<close> is \<open>null\<close> or \<open>undefined\<close>.\<close>

fun nullish :: "jsval \<Rightarrow> bool" where
  "nullish Undefined = True"
| "nullish Null = True"
| "nullish _ = False"

definition coalesce :: "jsval \<Rightarrow> jsval \<Rightarrow> jsval" where
  "coalesce a b = (if nullish a then b else a)"

text \<open>
  An object is modelled by its own properties: \<open>None\<close> is a key that the object does not
  have, \<open>Some Undefined\<close> a key that it has with the value \<open>undefined\<close>. Reading a
  property (\<open>o.k\<close>) does not tell the two apart; the spread \<open>{...a, ...b}\<close> does: every own
  property of \<open>b\<close>, also one holding \<open>undefined\<close>, replaces the property of \<open>a\<close>.
\<close>

definition rd :: "jsval option \<Rightarrow> jsval" where
  "rd p = (case p of None \<Rightarrow> Undefined | Some v \<Rightarrow> v)"

definition over :: "'a option \<Rightarrow> 'a option \<Rightarrow> 'a option" where
  "over a b = (case b of None \<Rightarrow> a | Some v \<Rightarrow> Some v)"

text \<open>
  What \<open>JSON.stringify\<close> followed by \<open>JSON.parse\<close> leaves of a property: a property
  holding \<open>undefined\<close> is not written.
\<close>

definition jsonProp :: "jsval option \<Rightarrow> jsval option" where
  "jsonProp p = (case p of Some Undefined \<Rightarrow> None | _ \<Rightarrow> p)"

text \<open>A parsed JSON object of the API, as its property reads: an absent key reads \<open>Undefined\<close>.\<close>

type_synonym rawobj = "string \<Rightarrow> jsval"

subsection \<open>Stored files, entries and the snapshot\<close>

text \<open>
  \<open>StoredFile\<close>: the script never spreads or enumerates a file object, so a field that is
  \<open>Undefined\<close> stands for an absent key as well; \<open>JSON.stringify\<close> writes neither.
  \<open>metadata\<close> is the nested object of the response, kept as it came.
\<close>

record StoredFile =
  fileId :: jsval
  fileName :: jsval
  fileSizeRaw :: jsval
  fileSize :: jsval
  downloadUrl :: jsval
  contentType :: jsval
  metadata :: "(string \<times> jsval) list option"

datatype filesval = FilesUndefined | FilesArr "StoredFile list"

record StoredVod =
  vod_id :: "jsval option"
  title :: "jsval option"
  channel :: "jsval option"
  recorded_at :: "jsval option"
  created_at :: "jsval option"
  duration_seconds :: "jsval option"
  twitch_id :: "jsval option"
  files :: "filesval option"
  filesFetchedAt :: "jsval option"

record Meta =
  generatedAt :: string
  baseUrl :: string
  targetUser :: jsval
  total :: nat

record Store =
  meta :: Meta
  vods :: "StoredVod list option"

text \<open>The object \<open>{}\<close> and the spread of two entries, \<open>{...a, ...b}\<close>.\<close>

definition emptyVod :: StoredVod where
  "emptyVod = \<lparr> vod_id = None, title = None, channel = None, recorded_at = None,
     created_at = None, duration_seconds = None, twitch_id = None, files = None,
     filesFetchedAt = None \<rparr>"

definition spread :: "StoredVod \<Rightarrow> StoredVod \<Rightarrow> StoredVod" where
  "spread a b = \<lparr> vod_id = over (vod_id a) (vod_id b),
     title = over (title a) (title b),
     channel = over (channel a) (channel b),
     recorded_at = over (recorded_at a) (recorded_at b),
     created_at = over (created_at a) (created_at b),
     duration_seconds = over (duration_seconds a) (duration_seconds b),
     twitch_id = over (twitch_id a) (twitch_id b),
     files = over (files a) (files b),
     filesFetchedAt = over (filesFetchedAt a) (filesFetchedAt b) \<rparr>"

text \<open>\<open>{...old}\<close> where \<open>old\<close> may be \<open>undefined\<close>: spreading \<open>undefined\<close> adds nothing.\<close>

definition spreadOpt :: "StoredVod option \<Rightarrow> StoredVod" where
  "spreadOpt old = (case old of None \<Rightarrow> emptyVod | Some a \<Rightarrow> a)"

text \<open>\<open>v.files\<close> as the script reads it: the array, or nothing (absent or \<open>undefined\<close>).\<close>

definition rdFiles :: "filesval option \<Rightarrow> StoredFile list option" where
  "rdFiles p = (case p of Some (FilesArr fs) \<Rightarrow> Some fs | _ \<Rightarrow> None)"

text \<open>The assignment \<open>files: x\<close> of a value that was read with \<open>rdFiles\<close>.\<close>

definition wrFiles :: "StoredFile list option \<Rightarrow> filesval option" where
  "wrFiles r = (case r of None \<Rightarrow> Some FilesUndefined | Some fs \<Rightarrow> Some (FilesArr fs))"

subsection \<open>normalizeVod, mergeVodPreservingFiles, needsFileInfo\<close>

text \<open>
  \<open>normalizeVod\<close> returns \<open>null\<close> (here \<open>None\<close>) for a record without a truthy \<open>ID\<close>. The
  object literal has the six keys below as own properties, whatever their values, and no
  others.
\<close>

definition normalizeVod :: "rawobj \<Rightarrow> StoredVod option" where
  "normalizeVod v =
     (if \<not> truthy (v ''ID'') then None
      else Some \<lparr> vod_id = Some (v ''ID''),
        title = Some (coalesce (v ''title'') (coalesce (v ''name'') Undefined)),
        channel = Some (coalesce (v ''channel'') (coalesce (v ''twitch_channel'') Undefined)),
        recorded_at = None,
        created_at = Some (coalesce (v ''twitch_createdAt'') Undefined),
        duration_seconds =
          Some (coalesce (v ''twitch_duration'') (coalesce (v ''duration'') Undefined)),
        twitch_id = Some (coalesce (v ''twitch_ID'') Undefined),
        files = None,
        filesFetchedAt = None \<rparr>)"

definition mergeVodPreservingFiles :: "StoredVod option \<Rightarrow> StoredVod \<Rightarrow> StoredVod" where
  "mergeVodPreservingFiles oldV fresh =
     (case oldV of
        None \<Rightarrow> fresh
      | Some old \<Rightarrow>
          (let merged = spread old fresh
           in if rdFiles (files fresh) = None
              then merged \<lparr> files := wrFiles (rdFiles (files old)) \<rparr>
              else merged))"

definition needsFileInfo :: "StoredVod option \<Rightarrow> bool" where
  "needsFileInfo v =
     (case v of
        None \<Rightarrow> True
      | Some e \<Rightarrow>
          (if rdFiles (files e) = None \<or> rdFiles (files e) = Some [] then True
           else if \<not> truthy (rd (filesFetchedAt e)) then True
           else False))"

subsection \<open>Configuration, responses and errors\<close>

text \<open>
  The environment variables, as \<open>Deno.env.get\<close> returns them (\<open>None\<close> is \<open>undefined\<close>).
  \<open>PAGE_LIMIT\<close> is the number read from its variable (default 100).
\<close>

record Config =
  BASE :: "string option"
  USER :: "string option"
  PASS :: "string option"
  TOTP :: "string option"
  TARGET_USER_OVERRIDE :: "string option"
  JSON_PATH :: string
  PAGE_LIMIT :: int

text \<open>\<open>!s\<close> for a string that may be \<open>undefined\<close>.\<close>

definition unset :: "string option \<Rightarrow> bool" where
  "unset s = (s = None \<or> s = Some [])"

text \<open>One value for each \<open>throw\<close> (and the exit at start-up) of the script.\<close>

datatype error =
    MissingEnv
  | WarmupFailed int string
  | LoginHttpError int
  | LoginRequiresTotp
  | LoginError jsval
  | LoginMissingData
  | VodListFailed int
  | FileInfoFailed int
  | BadJson
  | TypeError

text \<open>
  A response: \<open>r.ok\<close>, \<open>r.status\<close>, \<open>r.statusText\<close> and the body as \<open>r.json()\<close> parses it
  (\<open>None\<close> when the body is not JSON).
\<close>

datatype 'a response = Response (ok: bool) (status: int) (statusText: string) (json: "'a option")

record User =
  ID :: jsval
  username :: jsval

text \<open>
  The body of the login response: \<open>j.error\<close>, and \<open>j.data\<close> (\<open>None\<close> when \<open>j.data\<close> is
  falsy).
\<close>

record LoginBody =
  login_error :: jsval
  login_data :: "User option"

text \<open>A property that should hold an array: \<open>null\<close>/\<open>undefined\<close>, something else, or an array.\<close>

datatype 'a jfield = Nullish | NotArray | Arr "'a list"

record RawFile =
  fprop :: rawobj
  fmetadata :: "(string \<times> jsval) list option"

record FileBody =
  fb_data :: "RawFile jfield"
  fb_files :: "RawFile jfield"

text \<open>The body of a listing response: \<open>list.data\<close>, \<open>None\<close> when it is not an array.\<close>

type_synonym ListBody = "rawobj list option"

subsection \<open>warmup, login, fetchFileInfo, mapFileInfoToStoredFile\<close>

definition warmup :: "unit response \<Rightarrow> error + unit" where
  "warmup r = (if \<not> ok r then Inl (WarmupFailed (status r) (statusText r)) else Inr ())"

definition login :: "Config \<Rightarrow> LoginBody response \<Rightarrow> error + User" where
  "login cfg r =
     (let j = (case json r of None \<Rightarrow> \<lparr> login_error = Undefined, login_data = None \<rparr>
               | Some b \<Rightarrow> b)
      in if \<not> ok r then Inl (LoginHttpError (status r))
         else if login_error j = Str ''TOTP_REQUIRED'' \<and> unset (TOTP cfg)
           then Inl LoginRequiresTotp
         else if truthy (login_error j) then Inl (LoginError (login_error j))
         else (case login_data j of None \<Rightarrow> Inl LoginMissingData | Some u \<Rightarrow> Inr u))"

definition fetchFileInfo :: "FileBody response \<Rightarrow> error + RawFile list" where
  "fetchFileInfo r =
     (if \<not> ok r then Inl (FileInfoFailed (status r))
      else (case json r of
              None \<Rightarrow> Inl BadJson
            | Some j \<Rightarrow>
                (let arr = (case fb_data j of
                              Nullish \<Rightarrow> (case fb_files j of Nullish \<Rightarrow> Arr [] | x \<Rightarrow> x)
                            | d \<Rightarrow> d)
                 in Inr (case arr of Arr xs \<Rightarrow> xs | _ \<Rightarrow> []))))"

text \<open>The decimal digits of a number, as a template literal prints an integer.\<close>

fun showNat :: "nat \<Rightarrow> string" where
  "showNat n = (if n < 10 then [''0123456789'' ! n]
                else showNat (n div 10) @ [''0123456789'' ! (n mod 10)])"

declare showNat.simps [simp del]

definition showInt :: "int \<Rightarrow> string" where
  "showInt i = (if i < 0 then CHR ''-'' # showNat (nat (- i)) else showNat (nat i))"

definition isNumber :: "jsval \<Rightarrow> bool" where
  "isNumber x = (case x of Num _ \<Rightarrow> True | _ \<Rightarrow> False)"

definition mapFileInfoToStoredFile :: "RawFile \<Rightarrow> StoredFile" where
  "mapFileInfoToStoredFile f =
     (let p = fprop f in
      \<lparr> fileId = coalesce (p ''fileId'') (coalesce (p ''id'') (coalesce (p ''versionId'') Undefined)),
        fileName = coalesce (p ''fileName'') (coalesce (p ''name'') Undefined),
        fileSizeRaw = (if isNumber (p ''fileSizeRaw'') then p ''fileSizeRaw''
                       else if isNumber (p ''size'') then p ''size'' else Undefined),
        fileSize = coalesce (p ''fileSize'')
                     (case p ''fileSizeRaw'' of Num n \<Rightarrow> Str (showInt n @ '' B'')
                      | _ \<Rightarrow> Undefined),
        downloadUrl = coalesce (p ''downloadUrl'') (coalesce (p ''url'') Undefined),
        contentType = coalesce (p ''contentType'') (coalesce (p ''mimeType'') Undefined),
        metadata = fmetadata f \<rparr>)"

subsection \<open>The listing loop\<close>

text \<open>
  The requests of a run that are recorded: a listing request carries the target user (the
  page number is not sent), a request for file information carries the id.
\<close>

datatype request = VodList jsval | FileInfo jsval

text \<open>
  \<open>fetchVodPage\<close>, given the response to the request. The loop of \<open>main\<close> asks for the
  next page as long as a page is full; \<open>pages n\<close> is the response to the request made
  while \<open>page = n\<close>. Nothing bounds the number of full pages, so the loop is a partial
  function: \<open>None\<close> is a run that never leaves the loop.
\<close>

definition fetchVodPage :: "ListBody response \<Rightarrow> error + ListBody" where
  "fetchVodPage r =
     (if \<not> ok r then Inl (VodListFailed (status r))
      else (case json r of None \<Rightarrow> Inl BadJson | Some list \<Rightarrow> Inr list))"

definition pushNormalized :: "StoredVod list \<Rightarrow> rawobj list \<Rightarrow> StoredVod list" where
  "pushNormalized all raws = all @ List.map_filter normalizeVod raws"

partial_function (option) pageLoop ::
  "(nat \<Rightarrow> ListBody response) \<Rightarrow> int \<Rightarrow> jsval \<Rightarrow> nat \<Rightarrow> StoredVod list \<Rightarrow> request list
     \<Rightarrow> (error + StoredVod list \<times> request list) option" where
  "pageLoop pages limit target page all log =
     (case fetchVodPage (pages page) of
        Inl e \<Rightarrow> Some (Inl e)
      | Inr list \<Rightarrow>
          (case list of
             None \<Rightarrow> Some (Inr (all, log @ [VodList target]))
           | Some raws \<Rightarrow>
               if length raws = 0 then Some (Inr (all, log @ [VodList target]))
               else if int (length raws) < limit
                 then Some (Inr (pushNormalized all raws, log @ [VodList target]))
               else pageLoop pages limit target (page + 1) (pushNormalized all raws)
                      (log @ [VodList target])))"

declare pageLoop.simps [code]

subsection \<open>The world of a run\<close>

text \<open>
  Everything a run reads from outside: the responses of the server (the listing may depend
  on the target user and on the number of the request, the file information on the id),
  the clock (\<open>clock n\<close> is the string that the \<open>n\<close>-th call of
  \<open>new Date().toISOString()\<close> returns), \<open>Date.parse\<close> (the result for a string, \<open>None\<close>
  for \<open>NaN\<close>; its value on most strings is left to the implementation), and the snapshot
  file as \<open>loadStore\<close> returns it (\<open>None\<close> when the file is missing or does not parse).
\<close>

record World =
  warmupResponse :: "unit response"
  loginResponse :: "LoginBody response"
  vodPages :: "jsval \<Rightarrow> nat \<Rightarrow> ListBody response"
  fileInfo :: "jsval \<Rightarrow> FileBody response"
  clock :: "nat \<Rightarrow> string"
  dateParse :: "string \<Rightarrow> int option"
  snapshot :: "Store option"

subsection \<open>The snapshot file\<close>

text \<open>
  \<open>saveStore\<close> writes \<open>JSON.stringify(store)\<close>; the next run parses the text. \<open>jsonStore\<close>
  is the document that comes back: the properties holding \<open>undefined\<close> are gone. The order
  of the keys inside an object is not modelled.
\<close>

definition jsonFiles :: "filesval option \<Rightarrow> filesval option" where
  "jsonFiles p = (case p of Some FilesUndefined \<Rightarrow> None | _ \<Rightarrow> p)"

definition jsonVod :: "StoredVod \<Rightarrow> StoredVod" where
  "jsonVod v = \<lparr> vod_id = jsonProp (vod_id v), title = jsonProp (title v),
     channel = jsonProp (channel v), recorded_at = jsonProp (recorded_at v),
     created_at = jsonProp (created_at v), duration_seconds = jsonProp (duration_seconds v),
     twitch_id = jsonProp (twitch_id v), files = jsonFiles (files v),
     filesFetchedAt = jsonProp (filesFetchedAt v) \<rparr>"

definition jsonStore :: "Store \<Rightarrow> Store" where
  "jsonStore s = s \<lparr> vods := map_option (map jsonVod) (vods s) \<rparr>"

text \<open>\<open>existing?.vods ?? []\<close>\<close>

definition vodsOrEmpty :: "Store option \<Rightarrow> StoredVod list" where
  "vodsOrEmpty existing =
     (case existing of None \<Rightarrow> [] | Some s \<Rightarrow> (case vods s of None \<Rightarrow> [] | Some vs \<Rightarrow> vs))"

definition byIdSet :: "Store option \<Rightarrow> jsval set" where
  "byIdSet store =
     (case store of
        None \<Rightarrow> {}
      | Some s \<Rightarrow> fold (\<lambda>v acc. insert (rd (vod_id v)) acc)
                   (case vods s of None \<Rightarrow> [] | Some vs \<Rightarrow> vs) {})"

subsection \<open>The merge loop\<close>

text \<open>
  \<open>mergedById\<close> is a \<open>Map\<close>: \<open>set\<close> replaces the value of a key where it stands or appends
  a new key (\<open>AList.update\<close>), \<open>get\<close> is \<open>map_of\<close>, and \<open>values()\<close> lists the values in the
  order in which the keys were first set. The keys are ids, compared as values.
\<close>

record LoopState =
  mergedById :: "(jsval \<times> StoredVod) list"
  newCount :: nat
  refreshedCount :: nat
  ticks :: nat
  requests :: "request list"

definition seedMap :: "Store option \<Rightarrow> (jsval \<times> StoredVod) list" where
  "seedMap existing = fold (\<lambda>v m. AList.update (rd (vod_id v)) v m) (vodsOrEmpty existing) []"

text \<open>
  One round of the loop over the normalized listing. In the second branch \<open>old!.files\<close>
  would throw on a missing \<open>old\<close>; \<open>needsFileInfo\<close> excludes it.
\<close>

definition mergeStep :: "World \<Rightarrow> jsval set \<Rightarrow> StoredVod \<Rightarrow> LoopState \<Rightarrow> error + LoopState" where
  "mergeStep w seen v st =
     (let key = rd (vod_id v);
          old = map_of (mergedById st) key;
          mustFetch = (needsFileInfo old \<or> key \<notin> seen)
      in if mustFetch then
           (case fetchFileInfo (fileInfo w key) of
              Inl e \<Rightarrow> Inl e
            | Inr rawFiles \<Rightarrow>
                (let withFiles = (spread (spreadOpt old) v)
                       \<lparr> files := Some (FilesArr (map mapFileInfoToStoredFile rawFiles)),
                         filesFetchedAt := Some (Str (clock w (ticks st))) \<rparr>
                 in Inr (st \<lparr> mergedById := AList.update key withFiles (mergedById st),
                       newCount := (if key \<notin> seen then newCount st + 1 else newCount st),
                       refreshedCount :=
                         (if key \<notin> seen then refreshedCount st else refreshedCount st + 1),
                       ticks := ticks st + 1,
                       requests := requests st @ [FileInfo key] \<rparr>)))
         else
           (case old of
              None \<Rightarrow> Inl TypeError
            | Some prev \<Rightarrow>
                (let keepFiles = (spread (spreadOpt old) v)
                       \<lparr> files := wrFiles (rdFiles (files prev)),
                         filesFetchedAt := Some (rd (filesFetchedAt prev)) \<rparr>
                 in Inr (st \<lparr> mergedById := AList.update key keepFiles (mergedById st) \<rparr>))))"

fun mergeLoop :: "World \<Rightarrow> jsval set \<Rightarrow> StoredVod list \<Rightarrow> LoopState \<Rightarrow> error + LoopState" where
  "mergeLoop w seen [] st = Inr st"
| "mergeLoop w seen (v # vs) st =
     (case mergeStep w seen v st of Inl e \<Rightarrow> Inl e | Inr st' \<Rightarrow> mergeLoop w seen vs st')"

subsection \<open>Sorting\<close>

text \<open>
  \<open>Number(new Date(x))\<close>: \<open>None\<close> is \<open>NaN\<close>. A number is a time value when it is within
  8.64e15 milliseconds of the epoch.
\<close>

definition timeClip :: "int \<Rightarrow> int option" where
  "timeClip n = (if \<bar>n\<bar> \<le> 8640000000000000 then Some n else None)"

definition dateNumber :: "(string \<Rightarrow> int option) \<Rightarrow> jsval \<Rightarrow> int option" where
  "dateNumber parse x =
     (case x of
        Undefined \<Rightarrow> None
      | Null \<Rightarrow> Some 0
      | Bool b \<Rightarrow> Some (if b then 1 else 0)
      | Num n \<Rightarrow> timeClip n
      | Str s \<Rightarrow> parse s)"

definition sortKey :: "(string \<Rightarrow> int option) \<Rightarrow> StoredVod \<Rightarrow> int option" where
  "sortKey parse a = dateNumber parse (coalesce (rd (recorded_at a)) (rd (created_at a)))"

text \<open>The comparator \<open>(a, b) => tb - ta\<close>; \<open>None\<close> is \<open>NaN\<close>.\<close>

definition compareVods :: "(string \<Rightarrow> int option) \<Rightarrow> StoredVod \<Rightarrow> StoredVod \<Rightarrow> int option" where
  "compareVods parse a b =
     (case (sortKey parse a, sortKey parse b) of
        (Some ta, Some tb) \<Rightarrow> Some (tb - ta)
      | _ \<Rightarrow> None)"

text \<open>
  \<open>Array.prototype.sort\<close> reads a comparator result of \<open>NaN\<close> as 0, is stable, and sorts
  whenever the comparator is consistent, which this one is when every timestamp is a
  number: there the result is fixed by the language and is the one of the stable insertion
  sort below. When some timestamp is \<open>NaN\<close> the language leaves the order to the
  implementation; the insertion sort is then one of the permitted results.
\<close>

definition sortCompare :: "('a \<Rightarrow> 'a \<Rightarrow> int option) \<Rightarrow> 'a \<Rightarrow> 'a \<Rightarrow> int" where
  "sortCompare cmp a b = (case cmp a b of None \<Rightarrow> 0 | Some d \<Rightarrow> d)"

fun insertSorted :: "('a \<Rightarrow> 'a \<Rightarrow> int option) \<Rightarrow> 'a \<Rightarrow> 'a list \<Rightarrow> 'a list" where
  "insertSorted cmp x [] = [x]"
| "insertSorted cmp x (y # ys) =
     (if sortCompare cmp x y > 0 then y # insertSorted cmp x ys else x # y # ys)"

definition jsSort :: "('a \<Rightarrow> 'a \<Rightarrow> int option) \<Rightarrow> 'a list \<Rightarrow> 'a list" where
  "jsSort cmp xs = foldr (insertSorted cmp) xs []"

subsection \<open>main\<close>

text \<open>
  What a run leaves: the store handed to \<open>saveStore\<close>, the requests it made, and the two
  counters it prints.
\<close>

record Run =
  saved :: Store
  sent :: "request list"
  newVods :: nat
  refreshedVods :: nat

definition finish :: "World \<Rightarrow> string \<Rightarrow> jsval \<Rightarrow> LoopState \<Rightarrow> Run" where
  "finish w base target st =
     (let mergedList = jsSort (compareVods (dateParse w)) (map snd (mergedById st))
      in \<lparr> saved = \<lparr> meta = \<lparr> generatedAt = clock w (ticks st), baseUrl = base,
                              targetUser = target, total = length mergedList \<rparr>,
                     vods = Some mergedList \<rparr>,
           sent = requests st,
           newVods = newCount st,
           refreshedVods = refreshedCount st \<rparr>)"

text \<open>
  The script from its first line: the check of the required variables, \<open>warmup\<close>,
  \<open>login\<close>, \<open>loadStore\<close>, the listing loop, the merge loop, the sort and \<open>saveStore\<close>.
  The target user is \<open>user.username\<close>; \<open>TARGET_USER_OVERRIDE\<close> is read from the
  environment and not used.
\<close>

definition main :: "Config \<Rightarrow> World \<Rightarrow> (error + Run) option" where
  "main cfg w =
     (if unset (BASE cfg) \<or> unset (USER cfg) \<or> unset (PASS cfg) then Some (Inl MissingEnv)
      else
        (case warmup (warmupResponse w) of
           Inl e \<Rightarrow> Some (Inl e)
         | Inr _ \<Rightarrow>
             (case login cfg (loginResponse w) of
                Inl e \<Rightarrow> Some (Inl e)
              | Inr user \<Rightarrow>
                  (let target = username user;
                       existing = snapshot w;
                       seen = byIdSet existing
                   in case pageLoop (vodPages w target) (PAGE_LIMIT cfg) target 1 [] [] of
                        None \<Rightarrow> None
                      | Some (Inl e) \<Rightarrow> Some (Inl e)
                      | Some (Inr (all, log)) \<Rightarrow>
                          (case mergeLoop w seen all
                                  \<lparr> mergedById = seedMap existing, newCount = 0,
                                    refreshedCount = 0, ticks = 0, requests = log \<rparr> of
                             Inl e \<Rightarrow> Some (Inl e)
                           | Inr st \<Rightarrow>
                               Some (Inr (finish w (case BASE cfg of Some b \<Rightarrow> b | None \<Rightarrow> [])
                                            target st)))))))"

subsection \<open>Definitions for the statements and the proofs\<close>

text \<open>
  The first of a list of candidate keys whose value is neither \<open>null\<close> nor \<open>undefined\<close>;
  \<open>undefined\<close> when there is none.
\<close>

fun firstPresent :: "rawobj \<Rightarrow> string list \<Rightarrow> jsval" where
  "firstPresent v [] = Undefined"
| "firstPresent v (k # ks) = (if nullish (v k) then firstPresent v ks else v k)"

text \<open>The descriptive fields of an entry, as own properties.\<close>

definition descriptive :: "StoredVod \<Rightarrow> jsval option list" where
  "descriptive e = [title e, channel e, created_at e, duration_seconds e, twitch_id e]"

text \<open>The shape of every normalized entry: six own properties, three keys it does not have.\<close>

definition normShape :: "StoredVod \<Rightarrow> bool" where
  "normShape v = (vod_id v \<noteq> None \<and> title v \<noteq> None \<and> channel v \<noteq> None \<and>
     created_at v \<noteq> None \<and> duration_seconds v \<noteq> None \<and> twitch_id v \<noteq> None \<and>
     recorded_at v = None \<and> files v = None \<and> filesFetchedAt v = None)"

text \<open>\<open>v.id\<close>, the key of an entry in \<open>mergedById\<close>.\<close>

definition keyOf :: "StoredVod \<Rightarrow> jsval" where
  "keyOf v = rd (vod_id v)"

text \<open>The two objects that a round of the merge loop can store, and its decision.\<close>

definition withFiles :: "StoredVod option \<Rightarrow> StoredVod \<Rightarrow> StoredFile list \<Rightarrow> string \<Rightarrow> StoredVod" where
  "withFiles old v fs now = (spread (spreadOpt old) v)
     \<lparr> files := Some (FilesArr fs), filesFetchedAt := Some (Str now) \<rparr>"

definition keepFiles :: "StoredVod \<Rightarrow> StoredVod \<Rightarrow> StoredVod" where
  "keepFiles prev v = (spread prev v)
     \<lparr> files := wrFiles (rdFiles (files prev)),
       filesFetchedAt := Some (rd (filesFetchedAt prev)) \<rparr>"

definition mustFetch :: "(jsval \<times> StoredVod) list \<Rightarrow> jsval set \<Rightarrow> jsval \<Rightarrow> bool" where
  "mustFetch m seen k = (needsFileInfo (map_of m k) \<or> k \<notin> seen)"


text \<open>The \<open>recorded_at\<close> property of an entry that may be missing.\<close>

definition recOf :: "StoredVod option \<Rightarrow> jsval option" where
  "recOf old = (case old of None \<Rightarrow> None | Some p \<Rightarrow> recorded_at p)"

text \<open>Every value of the map is stored under its own id.\<close>

definition keysOk :: "(jsval \<times> StoredVod) list \<Rightarrow> bool" where
  "keysOk m = (\<forall>(k, e) \<in> set m. keyOf e = k)"

text \<open>The last entry of a listing with a given id.\<close>

fun lastWith :: "jsval \<Rightarrow> StoredVod list \<Rightarrow> StoredVod option" where
  "lastWith k [] = None"
| "lastWith k (v # vs) =
     (case lastWith k vs of Some l \<Rightarrow> Some l
      | None \<Rightarrow> if keyOf v = k then Some v else None)"

text \<open>
  An entry whose files are the answer of the server for its id, stamped by the clock of
  the run.
\<close>

definition fetchedForm :: "World \<Rightarrow> jsval \<Rightarrow> StoredVod \<Rightarrow> bool" where
  "fetchedForm w k e = (\<exists>raws n. fetchFileInfo (fileInfo w k) = Inr raws
     \<and> files e = Some (FilesArr (map mapFileInfoToStoredFile raws))
     \<and> filesFetchedAt e = Some (Str (clock w n)))"

text \<open>
  The entry of the prior snapshot with a given id. An id occurs once in a snapshot that
  the script wrote; should a file repeat an id, the last entry with it counts, as it does
  for \<open>mergedById\<close>.
\<close>

definition priorEntry :: "Store option \<Rightarrow> jsval \<Rightarrow> StoredVod option" where
  "priorEntry existing k = List.find (\<lambda>e. keyOf e = k) (rev (vodsOrEmpty existing))"

text \<open>The normalized entries that the listing loop of a run collects.\<close>

definition listedVods :: "Config \<Rightarrow> World \<Rightarrow> StoredVod list" where
  "listedVods cfg w =
     (case login cfg (loginResponse w) of
        Inl _ \<Rightarrow> []
      | Inr user \<Rightarrow>
          (case pageLoop (vodPages w (username user)) (PAGE_LIMIT cfg) (username user) 1 [] [] of
             Some (Inr (all, log)) \<Rightarrow> all
           | _ \<Rightarrow> []))"

text \<open>The entries of a store (\<open>store.vods ?? []\<close>).\<close>

definition vodsOf :: "Store \<Rightarrow> StoredVod list" where
  "vodsOf s = (case vods s of None \<Rightarrow> [] | Some vs \<Rightarrow> vs)"







text \<open>
  A document without the parts that a run always renews: \<open>generatedAt\<close>, and the
  \<open>filesFetchedAt\<close> of the entries whose file list is empty.
\<close>

definition eraseStamp :: "StoredVod \<Rightarrow> StoredVod" where
  "eraseStamp e = (if rdFiles (files e) = Some [] then e \<lparr> filesFetchedAt := None \<rparr> else e)"

definition exceptGeneratedAt :: "Store \<Rightarrow> Store" where
  "exceptGeneratedAt d = d \<lparr> meta := (meta d) \<lparr> generatedAt := [] \<rparr> \<rparr>"

definition exceptStamps :: "Store \<Rightarrow> Store" where
  "exceptStamps d = (exceptGeneratedAt d) \<lparr> vods := map_option (map eraseStamp) (vods d) \<rparr>"

text \<open>No two neighbours of a list are out of order for the comparator.\<close>

fun adjacentOk :: "('a \<Rightarrow> 'a \<Rightarrow> int option) \<Rightarrow> 'a list \<Rightarrow> bool" where
  "adjacentOk cmp (x # y # r) = (\<not> sortCompare cmp x y > 0 \<and> adjacentOk cmp (y # r))"
| "adjacentOk cmp _ = True"

subsection \<open>Example inputs\<close>

definition raw0 :: rawobj where
  "raw0 = (\<lambda>k. Undefined)"

definition okWarmup :: "unit response" where
  "okWarmup = Response True 200 ''OK'' (Some ())"

definition okLogin :: "string \<Rightarrow> LoginBody response" where
  "okLogin name = Response True 200 ''OK''
     (Some \<lparr> login_error = Undefined,
             login_data = Some \<lparr> ID = Str ''42'', username = Str name \<rparr> \<rparr>)"


definition okFiles :: "RawFile list \<Rightarrow> FileBody response" where
  "okFiles fs = Response True 200 ''OK'' (Some \<lparr> fb_data = Arr fs, fb_files = Nullish \<rparr>)"

definition rawFile1 :: RawFile where
  "rawFile1 = \<lparr> fprop = raw0(''id'' := Str ''f1'', ''name'' := Str ''a.mp4'',
       ''fileSizeRaw'' := Num 1024),
     fmetadata = None \<rparr>"

definition file1 :: StoredFile where
  "file1 = \<lparr> fileId = Str ''f1'', fileName = Str ''a.mp4'', fileSizeRaw = Num 1024,
     fileSize = Str ''1024 B'', downloadUrl = Undefined, contentType = Undefined,
     metadata = None \<rparr>"

definition cfgExample :: Config where
  "cfgExample = \<lparr> BASE = Some ''https://vault.example'', USER = Some ''alice'',
     PASS = Some ''secret'', TOTP = None, TARGET_USER_OVERRIDE = None,
     JSON_PATH = ''vods.json'', PAGE_LIMIT = 100 \<rparr>"

text \<open>
  A world in which warm-up and login succeed, the listing is one short page, and the clock
  stands still during the run.
\<close>

definition exampleWorld ::
  "Store option \<Rightarrow> rawobj list \<Rightarrow> (jsval \<Rightarrow> FileBody response) \<Rightarrow> string \<Rightarrow> World" where
  "exampleWorld prior raws finfo now =
     \<lparr> warmupResponse = okWarmup, loginResponse = okLogin ''alice'',
       vodPages = (\<lambda>u n. Response True 200 ''OK'' (Some (Some raws))),
       fileInfo = finfo, clock = (\<lambda>n. now), dateParse = (\<lambda>s. None), snapshot = prior \<rparr>"

definition metaExample :: "string \<Rightarrow> nat \<Rightarrow> Meta" where
  "metaExample now n = \<lparr> generatedAt = now, baseUrl = ''https://vault.example'',
     targetUser = Str ''alice'', total = n \<rparr>"

definition storeOf :: "string \<Rightarrow> StoredVod list \<Rightarrow> Store" where
  "storeOf now vs = \<lparr> meta = metaExample now (length vs), vods = Some vs \<rparr>"

text \<open>A listing record that has both duration keys.\<close>

definition c7_raw :: rawobj where
  "c7_raw = raw0(''ID'' := Str ''1'', ''duration'' := Num 10, ''twitch_duration'' := Num 20)"

definition c7_entry :: StoredVod where
  "c7_entry = \<lparr> vod_id = Some (Str ''1''), title = Some Undefined, channel = Some Undefined,
     recorded_at = None, created_at = Some Undefined, duration_seconds = Some (Num 20),
     twitch_id = Some Undefined, files = None, filesFetchedAt = None \<rparr>"


text \<open>A configuration with a target-user override.\<close>

definition c6_cfg :: Config where
  "c6_cfg = cfgExample \<lparr> TARGET_USER_OVERRIDE := Some ''bob'' \<rparr>"

definition c6_world :: World where
  "c6_world = exampleWorld None [] (\<lambda>i. okFiles []) ''2024-02-02T00:00:00.000Z''"

definition c6_run :: Run where
  "c6_run = \<lparr> saved = storeOf ''2024-02-02T00:00:00.000Z'' [],
     sent = [VodList (Str ''alice'')], newVods = 0, refreshedVods = 0 \<rparr>"

text \<open>
  A snapshot with one entry that has a title, a file and a time stamp, and a listing that
  returns the entry without a title.
\<close>

definition c3_old :: StoredVod where
  "c3_old = \<lparr> vod_id = Some (Str ''7''), title = Some (Str ''Old title''),
     channel = Some (Str ''chan''), recorded_at = None, created_at = Some (Num 1700000000),
     duration_seconds = Some (Num 60), twitch_id = None, files = Some (FilesArr [file1]),
     filesFetchedAt = Some (Str ''2024-01-01T00:00:00.000Z'') \<rparr>"

definition c3_raw :: rawobj where
  "c3_raw = raw0(''ID'' := Str ''7'', ''channel'' := Str ''chan'',
     ''twitch_createdAt'' := Num 1700000000, ''twitch_duration'' := Num 60)"

definition c3_fresh :: StoredVod where
  "c3_fresh = \<lparr> vod_id = Some (Str ''7''), title = Some Undefined,
     channel = Some (Str ''chan''), recorded_at = None, created_at = Some (Num 1700000000),
     duration_seconds = Some (Num 60), twitch_id = Some Undefined, files = None,
     filesFetchedAt = None \<rparr>"

definition c3_world :: World where
  "c3_world = exampleWorld (Some (storeOf ''2024-01-01T00:00:00.000Z'' [c3_old])) [c3_raw]
     (\<lambda>i. okFiles [rawFile1]) ''2024-02-02T00:00:00.000Z''"

definition c3_merged :: StoredVod where
  "c3_merged = c3_old \<lparr> title := Some Undefined, twitch_id := Some Undefined \<rparr>"

definition c3_run :: Run where
  "c3_run = \<lparr> saved = storeOf ''2024-02-02T00:00:00.000Z'' [c3_merged],
     sent = [VodList (Str ''alice'')], newVods = 0, refreshedVods = 0 \<rparr>"

definition c3_state :: LoopState where
  "c3_state = \<lparr> mergedById = [(Str ''7'', c3_old)], newCount = 0, refreshedCount = 0,
     ticks = 0, requests = [] \<rparr>"

text \<open>
  A snapshot with a fresh entry (\<open>7\<close>) and an entry with an empty file list (\<open>8\<close>), and
  a listing with both and a new entry (\<open>9\<close>).
\<close>

definition ex_old8 :: StoredVod where
  "ex_old8 = \<lparr> vod_id = Some (Str ''8''), title = Some (Str ''Eight''),
     channel = Some (Str ''chan''), recorded_at = None, created_at = Some (Num 1700000100),
     duration_seconds = Some (Num 90), twitch_id = None, files = Some (FilesArr []),
     filesFetchedAt = Some (Str ''2024-01-01T00:00:00.000Z'') \<rparr>"

definition ex_raw8 :: rawobj where
  "ex_raw8 = raw0(''ID'' := Str ''8'', ''title'' := Str ''Eight'', ''channel'' := Str ''chan'',
     ''twitch_createdAt'' := Num 1700000100, ''twitch_duration'' := Num 90)"

definition ex_raw9 :: rawobj where
  "ex_raw9 = raw0(''ID'' := Str ''9'', ''title'' := Str ''Nine'', ''channel'' := Str ''chan'',
     ''twitch_createdAt'' := Num 1700000200, ''twitch_duration'' := Num 30)"

definition ex_fresh8 :: StoredVod where
  "ex_fresh8 = \<lparr> vod_id = Some (Str ''8''), title = Some (Str ''Eight''),
     channel = Some (Str ''chan''), recorded_at = None, created_at = Some (Num 1700000100),
     duration_seconds = Some (Num 90), twitch_id = Some Undefined, files = None,
     filesFetchedAt = None \<rparr>"

definition ex_fresh9 :: StoredVod where
  "ex_fresh9 = \<lparr> vod_id = Some (Str ''9''), title = Some (Str ''Nine''),
     channel = Some (Str ''chan''), recorded_at = None, created_at = Some (Num 1700000200),
     duration_seconds = Some (Num 30), twitch_id = Some Undefined, files = None,
     filesFetchedAt = None \<rparr>"

definition exWorld :: World where
  "exWorld = exampleWorld (Some (storeOf ''2024-01-01T00:00:00.000Z'' [c3_old, ex_old8]))
     [c3_raw, ex_raw8, ex_raw9] (\<lambda>i. okFiles [rawFile1]) ''2024-02-02T00:00:00.000Z''"

definition ex_saved8 :: StoredVod where
  "ex_saved8 = ex_fresh8 \<lparr> files := Some (FilesArr [file1]),
     filesFetchedAt := Some (Str ''2024-02-02T00:00:00.000Z'') \<rparr>"

definition ex_saved9 :: StoredVod where
  "ex_saved9 = ex_fresh9 \<lparr> files := Some (FilesArr [file1]),
     filesFetchedAt := Some (Str ''2024-02-02T00:00:00.000Z'') \<rparr>"

definition ex_run :: Run where
  "ex_run = \<lparr> saved = storeOf ''2024-02-02T00:00:00.000Z'' [ex_saved9, ex_saved8, c3_merged],
     sent = [VodList (Str ''alice''), FileInfo (Str ''8''), FileInfo (Str ''9'')],
     newVods = 1, refreshedVods = 1 \<rparr>"












text \<open>
  A first run on a listing of one entry whose file list the server returns empty, and a
  second run a day later on the snapshot of the first.
\<close>

definition c4_raw :: rawobj where
  "c4_raw = raw0(''ID'' := Str ''1'', ''title'' := Str ''One'',
     ''twitch_createdAt'' := Num 1700000000)"

definition c4_world1 :: World where
  "c4_world1 = exampleWorld None [c4_raw] (\<lambda>i. okFiles []) ''2024-02-02T00:00:00.000Z''"

definition c4_saved :: "string \<Rightarrow> StoredVod" where
  "c4_saved now = \<lparr> vod_id = Some (Str ''1''), title = Some (Str ''One''),
     channel = Some Undefined, recorded_at = None, created_at = Some (Num 1700000000),
     duration_seconds = Some Undefined, twitch_id = Some Undefined,
     files = Some (FilesArr []), filesFetchedAt = Some (Str now) \<rparr>"

definition c4_run1 :: Run where
  "c4_run1 = \<lparr> saved = storeOf ''2024-02-02T00:00:00.000Z''
       [c4_saved ''2024-02-02T00:00:00.000Z''],
     sent = [VodList (Str ''alice''), FileInfo (Str ''1'')], newVods = 1, refreshedVods = 0 \<rparr>"

definition c4_clock2 :: "nat \<Rightarrow> string" where
  "c4_clock2 n = ''2024-02-03T00:00:00.000Z''"

definition c4_world2 :: World where
  "c4_world2 = c4_world1 \<lparr> snapshot := Some (jsonStore (saved c4_run1)), clock := c4_clock2 \<rparr>"

definition c4_run2 :: Run where
  "c4_run2 = \<lparr> saved = storeOf ''2024-02-03T00:00:00.000Z''
       [c4_saved ''2024-02-03T00:00:00.000Z''],
     sent = [VodList (Str ''alice''), FileInfo (Str ''1'')], newVods = 0, refreshedVods = 1 \<rparr>"

section \<open>Properties\<close>

subsection \<open>Basic facts\<close>

lemma rd_simps [simp]: "rd None = Undefined" "rd (Some x) = x"
  by (simp_all add: rd_def)

lemma over_simps [simp]: "over a None = a" "over a (Some x) = Some x"
  by (simp_all add: over_def)

lemma spread_sel [simp]:
  "vod_id (spread a b) = over (vod_id a) (vod_id b)"
  "title (spread a b) = over (title a) (title b)"
  "channel (spread a b) = over (channel a) (channel b)"
  "recorded_at (spread a b) = over (recorded_at a) (recorded_at b)"
  "created_at (spread a b) = over (created_at a) (created_at b)"
  "duration_seconds (spread a b) = over (duration_seconds a) (duration_seconds b)"
  "twitch_id (spread a b) = over (twitch_id a) (twitch_id b)"
  "files (spread a b) = over (files a) (files b)"
  "filesFetchedAt (spread a b) = over (filesFetchedAt a) (filesFetchedAt b)"
  by (simp_all add: spread_def)

lemma emptyVod_sel [simp]:
  "vod_id emptyVod = None" "title emptyVod = None" "channel emptyVod = None"
  "recorded_at emptyVod = None" "created_at emptyVod = None"
  "duration_seconds emptyVod = None" "twitch_id emptyVod = None" "files emptyVod = None"
  "filesFetchedAt emptyVod = None"
  by (simp_all add: emptyVod_def)

lemma normalizeVod_SomeD:
  assumes "normalizeVod v = Some e"
  shows "truthy (v ''ID'')"
    and "e = \<lparr> vod_id = Some (v ''ID''),
        title = Some (coalesce (v ''title'') (coalesce (v ''name'') Undefined)),
        channel = Some (coalesce (v ''channel'') (coalesce (v ''twitch_channel'') Undefined)),
        recorded_at = None,
        created_at = Some (coalesce (v ''twitch_createdAt'') Undefined),
        duration_seconds =
          Some (coalesce (v ''twitch_duration'') (coalesce (v ''duration'') Undefined)),
        twitch_id = Some (coalesce (v ''twitch_ID'') Undefined),
        files = None,
        filesFetchedAt = None \<rparr>"
proof -
  show t: "truthy (v ''ID'')"
  proof (rule ccontr)
    assume "\<not> truthy (v ''ID'')"
    then have "normalizeVod v = None" by (simp add: normalizeVod_def)
    with assms show False by simp
  qed
  from assms t show "e = \<lparr> vod_id = Some (v ''ID''),
        title = Some (coalesce (v ''title'') (coalesce (v ''name'') Undefined)),
        channel = Some (coalesce (v ''channel'') (coalesce (v ''twitch_channel'') Undefined)),
        recorded_at = None,
        created_at = Some (coalesce (v ''twitch_createdAt'') Undefined),
        duration_seconds =
          Some (coalesce (v ''twitch_duration'') (coalesce (v ''duration'') Undefined)),
        twitch_id = Some (coalesce (v ''twitch_ID'') Undefined),
        files = None,
        filesFetchedAt = None \<rparr>"
    by (simp add: normalizeVod_def)
qed

lemma normalizeVod_shape: "normalizeVod raw = Some v \<Longrightarrow> normShape v"
  by (drule normalizeVod_SomeD(2)) (simp add: normShape_def)

lemma firstPresent2: "firstPresent v [a, b] = coalesce (v a) (coalesce (v b) Undefined)"
  by (simp add: coalesce_def)

lemma firstPresent1: "firstPresent v [a] = coalesce (v a) Undefined"
  by (simp add: coalesce_def)

lemma over_shape: "b \<noteq> None \<Longrightarrow> over a b = b"
  by (cases b) simp_all

subsection \<open>The normalizer\<close>

text \<open>
  C7, as amended. For every raw listing record that the normalizer accepts, each field
  is the first candidate key, left to right, whose value is neither null nor undefined:
  title from \<open>title\<close> then \<open>name\<close>; channel from \<open>channel\<close> then \<open>twitch_channel\<close>;
  \<open>created_at\<close> from \<open>twitch_createdAt\<close> alone; \<open>duration_seconds\<close> from \<open>twitch_duration\<close>
  then \<open>duration\<close>, the twitch-specific key first.
\<close>

theorem normalizeVod_candidates:
  assumes "normalizeVod v = Some e"
  shows "rd (title e) = firstPresent v [''title'', ''name'']
       \<and> rd (channel e) = firstPresent v [''channel'', ''twitch_channel'']
       \<and> rd (created_at e) = firstPresent v [''twitch_createdAt'']
       \<and> rd (duration_seconds e) = firstPresent v [''twitch_duration'', ''duration'']"
  unfolding firstPresent1 firstPresent2
  by (subst normalizeVod_SomeD(2) [OF assms], simp)+

theorem normalizeVod_candidates_witness:
  "normalizeVod c7_raw = Some c7_entry
   \<and> rd (title c7_entry) = firstPresent c7_raw [''title'', ''name'']
   \<and> rd (channel c7_entry) = firstPresent c7_raw [''channel'', ''twitch_channel'']
   \<and> rd (created_at c7_entry) = firstPresent c7_raw [''twitch_createdAt'']
   \<and> rd (duration_seconds c7_entry) = firstPresent c7_raw [''twitch_duration'', ''duration'']"
proof -
  have h: "normalizeVod c7_raw = Some c7_entry"
    by (simp add: normalizeVod_def c7_raw_def c7_entry_def raw0_def coalesce_def)
  from normalizeVod_candidates [OF h] h show ?thesis by simp
qed

text \<open>
  C7 as stated fails for the duration: the record \<open>c7_raw\<close> has \<open>duration = 10\<close> and
  \<open>twitch_duration = 20\<close>; the generic key first would give 10, the normalizer gives 20.
\<close>

theorem normalizeVod_duration_counterexample:
  "normalizeVod c7_raw = Some c7_entry
   \<and> firstPresent c7_raw [''duration'', ''twitch_duration''] = Num 10
   \<and> rd (duration_seconds c7_entry) = Num 20"
  by (simp add: normalizeVod_def c7_raw_def c7_entry_def raw0_def coalesce_def)

subsection \<open>Login\<close>




subsection \<open>The target user\<close>

text \<open>
  C6 fails on the code. With \<open>VAULT_TARGET_USER = bob\<close> and a login as \<open>alice\<close>, the
  listing request is made for \<open>alice\<close>, and \<open>alice\<close> is the target user written to the
  snapshot.
\<close>

theorem main_target_user_override_ignored:
  "TARGET_USER_OVERRIDE c6_cfg = Some ''bob''
   \<and> main c6_cfg c6_world = Some (Inr c6_run)
   \<and> sent c6_run = [VodList (Str ''alice'')]
   \<and> targetUser (meta (saved c6_run)) = Str ''alice''"
proof -
  have "main c6_cfg c6_world = Some (Inr c6_run)"
    by code_simp
  then show ?thesis
    by (simp add: c6_cfg_def c6_run_def storeOf_def metaExample_def)
qed

lemma mergeStep_fetch:
  assumes "mustFetch (mergedById st) S (keyOf v)"
  shows "mergeStep w S v st =
     (case fetchFileInfo (fileInfo w (keyOf v)) of
        Inl e \<Rightarrow> Inl e
      | Inr raws \<Rightarrow>
          Inr (st \<lparr> mergedById := AList.update (keyOf v)
                     (withFiles (map_of (mergedById st) (keyOf v)) v
                        (map mapFileInfoToStoredFile raws) (clock w (ticks st)))
                     (mergedById st),
                   newCount := (if keyOf v \<notin> S then newCount st + 1 else newCount st),
                   refreshedCount :=
                     (if keyOf v \<notin> S then refreshedCount st else refreshedCount st + 1),
                   ticks := ticks st + 1,
                   requests := requests st @ [FileInfo (keyOf v)] \<rparr>))"
  using assms
  by (simp add: mergeStep_def mustFetch_def keyOf_def withFiles_def Let_def split: sum.splits)

lemma mergeStep_keep:
  assumes "\<not> mustFetch (mergedById st) S (keyOf v)"
  shows "\<exists>prev. map_of (mergedById st) (keyOf v) = Some prev
     \<and> mergeStep w S v st =
         Inr (st \<lparr> mergedById := AList.update (keyOf v) (keepFiles prev v) (mergedById st) \<rparr>)"
proof -
  from assms have n: "\<not> needsFileInfo (map_of (mergedById st) (keyOf v))" and s: "keyOf v \<in> S"
    by (simp_all add: mustFetch_def)
  from n obtain prev where p: "map_of (mergedById st) (keyOf v) = Some prev"
    by (cases "map_of (mergedById st) (keyOf v)") (simp_all add: needsFileInfo_def)
  with n s show ?thesis
    by (simp add: mergeStep_def keyOf_def keepFiles_def spreadOpt_def Let_def)
qed

lemma withFiles_sel:
  assumes "normShape v"
  shows "vod_id (withFiles old v fs now) = vod_id v"
    and "descriptive (withFiles old v fs now) = descriptive v"
    and "recorded_at (withFiles old v fs now) = recOf old"
    and "files (withFiles old v fs now) = Some (FilesArr fs)"
    and "filesFetchedAt (withFiles old v fs now) = Some (Str now)"
  using assms
  by (simp_all add: withFiles_def normShape_def descriptive_def over_shape recOf_def
      spreadOpt_def split: option.splits)

lemma keepFiles_sel:
  assumes "normShape v"
  shows "vod_id (keepFiles prev v) = vod_id v"
    and "descriptive (keepFiles prev v) = descriptive v"
    and "recorded_at (keepFiles prev v) = recorded_at prev"
    and "files (keepFiles prev v) = wrFiles (rdFiles (files prev))"
    and "filesFetchedAt (keepFiles prev v) = Some (rd (filesFetchedAt prev))"
  using assms
  by (simp_all add: keepFiles_def normShape_def descriptive_def over_shape)

lemma keepFiles_fresh:
  assumes "\<not> needsFileInfo (Some prev)"
  shows "files (keepFiles prev v) = files prev"
    and "filesFetchedAt (keepFiles prev v) = filesFetchedAt prev"
    and "\<not> needsFileInfo (Some (keepFiles prev v))"
proof -
  from assms obtain fs where fs: "files prev = Some (FilesArr fs)" "fs \<noteq> []"
    by (auto simp: needsFileInfo_def rdFiles_def split: option.splits filesval.splits if_splits)
  from assms obtain t where t: "filesFetchedAt prev = Some t" "truthy t"
    by (cases "filesFetchedAt prev") (auto simp: needsFileInfo_def split: if_splits)
  show "files (keepFiles prev v) = files prev"
    using fs by (simp add: keepFiles_def rdFiles_def wrFiles_def)
  show "filesFetchedAt (keepFiles prev v) = filesFetchedAt prev"
    using t by (simp add: keepFiles_def)
  show "\<not> needsFileInfo (Some (keepFiles prev v))"
    using fs t by (simp add: keepFiles_def needsFileInfo_def rdFiles_def wrFiles_def)
qed

text \<open>What a successful round leaves under the key of its entry.\<close>

lemma mergeStep_result:
  assumes "mergeStep w S v st = Inr st'"
  shows "\<exists>e. mergedById st' = AList.update (keyOf v) e (mergedById st)
     \<and> (if mustFetch (mergedById st) S (keyOf v)
          then (\<exists>raws. fetchFileInfo (fileInfo w (keyOf v)) = Inr raws
                 \<and> e = withFiles (map_of (mergedById st) (keyOf v)) v
                         (map mapFileInfoToStoredFile raws) (clock w (ticks st))
                 \<and> requests st' = requests st @ [FileInfo (keyOf v)])
          else (\<exists>prev. map_of (mergedById st) (keyOf v) = Some prev
                 \<and> e = keepFiles prev v \<and> requests st' = requests st))"
proof (cases "mustFetch (mergedById st) S (keyOf v)")
  case True
  with assms mergeStep_fetch [OF True, of w] show ?thesis
    by (auto split: sum.splits)
next
  case False
  with assms mergeStep_keep [OF False, of w] show ?thesis
    by auto
qed

subsection \<open>The merge loop\<close>

lemma mergeStep_other:
  assumes "mergeStep w S v st = Inr st'" and "k \<noteq> keyOf v"
  shows "map_of (mergedById st') k = map_of (mergedById st) k"
  using mergeStep_result [OF assms(1)] assms(2) by (auto simp: update_conv')

lemma mergeStep_keys:
  assumes "mergeStep w S v st = Inr st'"
  shows "map fst (mergedById st') =
     (if keyOf v \<in> set (map fst (mergedById st)) then map fst (mergedById st)
      else map fst (mergedById st) @ [keyOf v])"
proof -
  from mergeStep_result [OF assms] obtain e where
    "mergedById st' = AList.update (keyOf v) e (mergedById st)" by blast
  then show ?thesis by (simp only: update_keys)
qed

lemma mergeStep_mustFetch_other:
  assumes "mergeStep w S v st = Inr st'" and "k \<noteq> keyOf v"
  shows "mustFetch (mergedById st') S k = mustFetch (mergedById st) S k"
  using mergeStep_other [OF assms] by (simp add: mustFetch_def)

lemma mergeStep_kept_stays:
  assumes "mergeStep w S v st = Inr st'" and "\<not> mustFetch (mergedById st) S (keyOf v)"
  shows "\<not> mustFetch (mergedById st') S (keyOf v)"
proof -
  from mergeStep_result [OF assms(1)] assms(2) obtain prev where
    p: "map_of (mergedById st) (keyOf v) = Some prev" and
    m: "mergedById st' = AList.update (keyOf v) (keepFiles prev v) (mergedById st)"
    by auto
  from assms(2) p have "\<not> needsFileInfo (Some prev)" and "keyOf v \<in> S"
    by (simp_all add: mustFetch_def)
  then show ?thesis
    using m by (simp add: mustFetch_def update_conv' keepFiles_fresh(3))
qed

lemma mergeLoop_other:
  assumes "mergeLoop w S vs st = Inr st'" and "k \<notin> keyOf ` set vs"
  shows "map_of (mergedById st') k = map_of (mergedById st) k"
  using assms
proof (induction vs arbitrary: st)
  case Nil
  then show ?case by simp
next
  case (Cons v vs)
  from Cons.prems(1) obtain st1 where
    s1: "mergeStep w S v st = Inr st1" and r: "mergeLoop w S vs st1 = Inr st'"
    by (auto split: sum.splits)
  from Cons.prems(2) have "k \<noteq> keyOf v" and "k \<notin> keyOf ` set vs" by auto
  with Cons.IH [OF r] mergeStep_other [OF s1] show ?case by simp
qed

lemma mergeLoop_keys:
  assumes "mergeLoop w S vs st = Inr st'"
  shows "set (map fst (mergedById st')) = set (map fst (mergedById st)) \<union> keyOf ` set vs"
    and "distinct (map fst (mergedById st)) \<Longrightarrow> distinct (map fst (mergedById st'))"
    and "keyOf ` set vs \<subseteq> set (map fst (mergedById st))
         \<Longrightarrow> map fst (mergedById st') = map fst (mergedById st)"
  using assms
proof (induction vs arbitrary: st)
  case Nil
  { case 1 then show ?case by simp }
  { case 2 then show ?case by simp }
  { case 3 then show ?case by simp }
next
  case (Cons v vs)
  { case 1
    from 1 obtain st1 where
      s1: "mergeStep w S v st = Inr st1" and r: "mergeLoop w S vs st1 = Inr st'"
      by (auto split: sum.splits)
    from Cons.IH(1) [OF r] mergeStep_keys [OF s1] show ?case by (auto split: if_splits) }
  { case 2
    from 2(2) obtain st1 where
      s1: "mergeStep w S v st = Inr st1" and r: "mergeLoop w S vs st1 = Inr st'"
      by (auto split: sum.splits)
    from 2(1) mergeStep_keys [OF s1] have "distinct (map fst (mergedById st1))"
      by (auto split: if_splits)
    from Cons.IH(2) [OF this r] show ?case . }
  { case 3
    from 3(2) obtain st1 where
      s1: "mergeStep w S v st = Inr st1" and r: "mergeLoop w S vs st1 = Inr st'"
      by (auto split: sum.splits)
    from 3(1) mergeStep_keys [OF s1] have k1: "map fst (mergedById st1) = map fst (mergedById st)"
      by auto
    with 3(1) have "keyOf ` set vs \<subseteq> set (map fst (mergedById st1))" by auto
    from Cons.IH(3) [OF this r] k1 show ?case by simp }
qed

lemma lastWith_None_iff: "lastWith k vs = None \<longleftrightarrow> k \<notin> keyOf ` set vs"
  by (induction vs) (auto split: option.splits)

lemma lastWith_SomeD: "lastWith k vs = Some l \<Longrightarrow> l \<in> set vs \<and> keyOf l = k"
  by (induction vs) (auto split: option.splits if_splits)

lemma files_withFiles [simp]:
  "files (withFiles old v fs now) = Some (FilesArr fs)"
  "filesFetchedAt (withFiles old v fs now) = Some (Str now)"
  by (simp_all add: withFiles_def)

lemma mergeStep_entry:
  assumes "mergeStep w S v st = Inr st'"
  shows "\<exists>e. map_of (mergedById st') (keyOf v) = Some e
     \<and> (normShape v \<longrightarrow> vod_id e = vod_id v \<and> descriptive e = descriptive v
           \<and> recorded_at e = recOf (map_of (mergedById st) (keyOf v)))
     \<and> (if mustFetch (mergedById st) S (keyOf v) then fetchedForm w (keyOf v) e
          else (\<exists>prev. map_of (mergedById st) (keyOf v) = Some prev
                 \<and> files e = files prev \<and> filesFetchedAt e = filesFetchedAt prev))"
proof (cases "mustFetch (mergedById st) S (keyOf v)")
  case True
  with mergeStep_result [OF assms] obtain raws where
    f: "fetchFileInfo (fileInfo w (keyOf v)) = Inr raws" and
    m: "mergedById st' = AList.update (keyOf v)
          (withFiles (map_of (mergedById st) (keyOf v)) v
             (map mapFileInfoToStoredFile raws) (clock w (ticks st))) (mergedById st)"
    by auto
  show ?thesis
    using True f by (auto simp: m update_conv' withFiles_sel fetchedForm_def)
next
  case False
  with mergeStep_result [OF assms] obtain prev where
    p: "map_of (mergedById st) (keyOf v) = Some prev" and
    m: "mergedById st' = AList.update (keyOf v) (keepFiles prev v) (mergedById st)"
    by auto
  from False p have n: "\<not> needsFileInfo (Some prev)" by (simp add: mustFetch_def)
  show ?thesis
    using False p by (simp add: m update_conv' keepFiles_sel keepFiles_fresh [OF n] recOf_def)
qed

lemma fetchedForm_cong:
  "files e = files e' \<Longrightarrow> filesFetchedAt e = filesFetchedAt e'
   \<Longrightarrow> fetchedForm w k e' \<Longrightarrow> fetchedForm w k e"
  by (simp add: fetchedForm_def)

lemma mergeLoop_cons:
  assumes "mergeLoop w S (v # vs) st = Inr st'"
  obtains st1 where "mergeStep w S v st = Inr st1" and "mergeLoop w S vs st1 = Inr st'"
  using assms by (auto split: sum.splits)

lemma mergeLoop_described:
  assumes "mergeLoop w S vs st = Inr st'" and "\<forall>v\<in>set vs. normShape v"
    and "lastWith k vs = Some l"
  shows "\<exists>e. map_of (mergedById st') k = Some e \<and> vod_id e = vod_id l
     \<and> descriptive e = descriptive l \<and> recorded_at e = recOf (map_of (mergedById st) k)"
  using assms
proof (induction vs arbitrary: st)
  case Nil
  then show ?case by simp
next
  case (Cons v vs)
  from Cons.prems(1) obtain st1 where
    s1: "mergeStep w S v st = Inr st1" and r: "mergeLoop w S vs st1 = Inr st'"
    by (rule mergeLoop_cons)
  from Cons.prems(2) have nv: "normShape v" and nvs: "\<forall>v\<in>set vs. normShape v" by simp_all
  from mergeStep_entry [OF s1] nv obtain e1 where
    e1: "map_of (mergedById st1) (keyOf v) = Some e1" "vod_id e1 = vod_id v"
      "descriptive e1 = descriptive v" "recorded_at e1 = recOf (map_of (mergedById st) (keyOf v))"
    by blast
  have rec: "recOf (map_of (mergedById st1) k) = recOf (map_of (mergedById st) k)"
  proof (cases "k = keyOf v")
    case True
    with e1 show ?thesis by (simp add: recOf_def)
  next
    case False
    with mergeStep_other [OF s1] show ?thesis by simp
  qed
  show ?case
  proof (cases "lastWith k vs")
    case None
    with Cons.prems(3) have kv: "keyOf v = k" and l: "l = v"
      by (auto split: if_splits)
    from None have "k \<notin> keyOf ` set vs" by (simp add: lastWith_None_iff)
    from mergeLoop_other [OF r this] e1 kv l show ?thesis by simp
  next
    case (Some l')
    with Cons.prems(3) have "l' = l" by simp
    with Some Cons.IH [OF r nvs] rec show ?thesis by simp
  qed
qed

lemma mergeLoop_files:
  assumes "mergeLoop w S vs st = Inr st'" and "k \<in> keyOf ` set vs"
  shows "\<exists>e. map_of (mergedById st') k = Some e
     \<and> (if mustFetch (mergedById st) S k then fetchedForm w k e
          else (\<exists>prev. map_of (mergedById st) k = Some prev
                 \<and> files e = files prev \<and> filesFetchedAt e = filesFetchedAt prev))"
  using assms
proof (induction vs arbitrary: st)
  case Nil
  then show ?case by simp
next
  case (Cons v vs)
  from Cons.prems(1) obtain st1 where
    s1: "mergeStep w S v st = Inr st1" and r: "mergeLoop w S vs st1 = Inr st'"
    by (rule mergeLoop_cons)
  from mergeStep_entry [OF s1] obtain e1 where
    e1: "map_of (mergedById st1) (keyOf v) = Some e1" and
    f1: "if mustFetch (mergedById st) S (keyOf v) then fetchedForm w (keyOf v) e1
         else (\<exists>prev. map_of (mergedById st) (keyOf v) = Some prev
                \<and> files e1 = files prev \<and> filesFetchedAt e1 = filesFetchedAt prev)"
    by blast
  show ?case
  proof (cases "k \<in> keyOf ` set vs")
    case False
    with Cons.prems(2) have kv: "k = keyOf v" by simp
    from mergeLoop_other [OF r False] e1 f1 kv show ?thesis by simp
  next
    case True
    from Cons.IH [OF r True] obtain e where
      e: "map_of (mergedById st') k = Some e" and
      f: "if mustFetch (mergedById st1) S k then fetchedForm w k e
          else (\<exists>prev. map_of (mergedById st1) k = Some prev
                 \<and> files e = files prev \<and> filesFetchedAt e = filesFetchedAt prev)"
      by blast
    show ?thesis
    proof (cases "k = keyOf v")
      case False
      with mergeStep_other [OF s1, of k] mergeStep_mustFetch_other [OF s1, of k] e f
      show ?thesis by (auto split: if_splits)
    next
      case kv: True
      show ?thesis
      proof (cases "mustFetch (mergedById st) S k")
        case True
        with f1 kv have "fetchedForm w k e1" by simp
        with f e1 kv have "fetchedForm w k e"
          by (auto split: if_splits intro: fetchedForm_cong)
        with e True show ?thesis by simp
      next
        case False
        with mergeStep_kept_stays [OF s1] kv have "\<not> mustFetch (mergedById st1) S k" by simp
        with f e1 kv have "files e = files e1 \<and> filesFetchedAt e = filesFetchedAt e1" by auto
        with f1 kv False e show ?thesis by auto
      qed
    qed
  qed
qed

lemma mergeLoop_requests:
  assumes "mergeLoop w S vs st = Inr st'"
  shows "\<exists>ks. requests st' = requests st @ map FileInfo ks
     \<and> set ks = {k \<in> keyOf ` set vs. mustFetch (mergedById st) S k}"
  using assms
proof (induction vs arbitrary: st)
  case Nil
  then show ?case by simp
next
  case (Cons v vs)
  from Cons.prems obtain st1 where
    s1: "mergeStep w S v st = Inr st1" and r: "mergeLoop w S vs st1 = Inr st'"
    by (rule mergeLoop_cons)
  from Cons.IH [OF r] obtain ks where
    ks: "requests st' = requests st1 @ map FileInfo ks"
        "set ks = {k \<in> keyOf ` set vs. mustFetch (mergedById st1) S k}"
    by blast
  have other: "\<And>k. k \<noteq> keyOf v \<Longrightarrow>
      mustFetch (mergedById st1) S k = mustFetch (mergedById st) S k"
    by (rule mergeStep_mustFetch_other [OF s1])
  show ?case
  proof (cases "mustFetch (mergedById st) S (keyOf v)")
    case True
    with mergeStep_result [OF s1] have "requests st1 = requests st @ [FileInfo (keyOf v)]"
      by auto
    with ks have a: "requests st' = requests st @ map FileInfo (keyOf v # ks)" by simp
    have "k \<in> set (keyOf v # ks)
        \<longleftrightarrow> k \<in> {k \<in> keyOf ` set (v # vs). mustFetch (mergedById st) S k}" for k
      by (cases "k = keyOf v") (use ks(2) True other in auto)
    then have "set (keyOf v # ks) = {k \<in> keyOf ` set (v # vs). mustFetch (mergedById st) S k}"
      by blast
    with a show ?thesis by blast
  next
    case False
    with mergeStep_result [OF s1] have "requests st1 = requests st" by auto
    with ks have a: "requests st' = requests st @ map FileInfo ks" by simp
    have "k \<in> set ks
        \<longleftrightarrow> k \<in> {k \<in> keyOf ` set (v # vs). mustFetch (mergedById st) S k}" for k
      by (cases "k = keyOf v") (use ks(2) False other mergeStep_kept_stays [OF s1 False] in auto)
    then have "set ks = {k \<in> keyOf ` set (v # vs). mustFetch (mergedById st) S k}"
      by blast
    with a show ?thesis by blast
  qed
qed

lemma set_update_cases:
  "(a, b) \<in> set (AList.update k v al) \<Longrightarrow> (a, b) = (k, v) \<or> (a, b) \<in> set al"
  by (induction al) (auto split: if_splits)

lemma keysOk_update: "keysOk m \<Longrightarrow> keyOf e = k \<Longrightarrow> keysOk (AList.update k e m)"
  unfolding keysOk_def by (auto dest: set_update_cases)

lemma mergeLoop_keysOk:
  assumes "mergeLoop w S vs st = Inr st'" and "\<forall>v\<in>set vs. normShape v"
    and "keysOk (mergedById st)"
  shows "keysOk (mergedById st')"
  using assms
proof (induction vs arbitrary: st)
  case Nil
  then show ?case by simp
next
  case (Cons v vs)
  from Cons.prems(1) obtain st1 where
    s1: "mergeStep w S v st = Inr st1" and r: "mergeLoop w S vs st1 = Inr st'"
    by (rule mergeLoop_cons)
  from Cons.prems(2) have nv: "normShape v" and nvs: "\<forall>v\<in>set vs. normShape v" by simp_all
  from mergeStep_result [OF s1] obtain e where
    m: "mergedById st1 = AList.update (keyOf v) e (mergedById st)" by blast
  from mergeStep_entry [OF s1] nv m have "keyOf e = keyOf v"
    by (auto simp: update_conv' keyOf_def)
  with Cons.prems(3) m have "keysOk (mergedById st1)" by (simp add: keysOk_update)
  from Cons.IH [OF r nvs this] show ?case .
qed

text \<open>The loop completes when every request that it has to make is answered.\<close>

lemma mergeLoop_total:
  assumes "\<forall>k \<in> keyOf ` set vs. mustFetch (mergedById st) S k
             \<longrightarrow> (\<exists>raws. fetchFileInfo (fileInfo w k) = Inr raws)"
  shows "\<exists>st'. mergeLoop w S vs st = Inr st'"
  using assms
proof (induction vs arbitrary: st)
  case Nil
  then show ?case by simp
next
  case (Cons v vs)
  have "\<exists>st1. mergeStep w S v st = Inr st1"
  proof (cases "mustFetch (mergedById st) S (keyOf v)")
    case True
    with Cons.prems obtain raws where "fetchFileInfo (fileInfo w (keyOf v)) = Inr raws"
      by auto
    with mergeStep_fetch [OF True, of w] show ?thesis by simp
  next
    case False
    from mergeStep_keep [OF False, of w] show ?thesis by blast
  qed
  then obtain st1 where s1: "mergeStep w S v st = Inr st1" ..
  have "\<forall>k \<in> keyOf ` set vs. mustFetch (mergedById st1) S k
             \<longrightarrow> (\<exists>raws. fetchFileInfo (fileInfo w k) = Inr raws)"
  proof (intro ballI impI)
    fix k assume k: "k \<in> keyOf ` set vs" and mf: "mustFetch (mergedById st1) S k"
    show "\<exists>raws. fetchFileInfo (fileInfo w k) = Inr raws"
    proof (cases "k = keyOf v")
      case False
      with mergeStep_mustFetch_other [OF s1, of k] mf k Cons.prems show ?thesis by auto
    next
      case True
      with mergeStep_kept_stays [OF s1] mf have "mustFetch (mergedById st) S (keyOf v)"
        by auto
      with Cons.prems True show ?thesis by auto
    qed
  qed
  from Cons.IH [OF this] s1 show ?case by simp
qed

subsection \<open>The snapshot as a map\<close>

lemma find_snoc:
  "List.find P (xs @ [x]) =
     (case List.find P xs of Some y \<Rightarrow> Some y | None \<Rightarrow> if P x then Some x else None)"
  by (induction xs) auto

lemma map_of_seed:
  "map_of (fold (\<lambda>v m. AList.update (keyOf v) v m) vs m) k =
     (case List.find (\<lambda>e. keyOf e = k) (rev vs) of Some e \<Rightarrow> Some e | None \<Rightarrow> map_of m k)"
  by (induction vs arbitrary: m) (auto simp: find_snoc update_conv' split: option.splits)

lemma keys_seed:
  "set (map fst (fold (\<lambda>v m. AList.update (keyOf v) v m) vs m)) = set (map fst m) \<union> keyOf ` set vs"
  by (induction vs arbitrary: m) (simp_all add: dom_update Un_assoc)

lemma distinct_seed:
  "distinct (map fst m) \<Longrightarrow> distinct (map fst (fold (\<lambda>v m. AList.update (keyOf v) v m) vs m))"
  by (induction vs arbitrary: m) (auto simp: distinct_update)

lemma keysOk_seed:
  "keysOk m \<Longrightarrow> keysOk (fold (\<lambda>v m. AList.update (keyOf v) v m) vs m)"
  by (induction vs arbitrary: m) (auto simp: keysOk_update)

lemma seed_distinct:
  "distinct (map keyOf vs) \<Longrightarrow> set (map fst m) \<inter> keyOf ` set vs = {}
   \<Longrightarrow> fold (\<lambda>v m. AList.update (keyOf v) v m) vs m = m @ map (\<lambda>v. (keyOf v, v)) vs"
proof (induction vs arbitrary: m)
  case Nil
  then show ?case by simp
next
  case (Cons v vs)
  from Cons.prems(2) have "keyOf v \<notin> fst ` set m" by auto
  then have u: "AList.update (keyOf v) v m = m @ [(keyOf v, v)]"
    by (induction m) auto
  with Cons.prems have "set (map fst (AList.update (keyOf v) v m)) \<inter> keyOf ` set vs = {}"
    by auto
  with Cons.IH [of "AList.update (keyOf v) v m"] Cons.prems(1) u show ?case by simp
qed

lemma seedMap_fold: "seedMap ex = fold (\<lambda>v m. AList.update (keyOf v) v m) (vodsOrEmpty ex) []"
  by (simp add: seedMap_def keyOf_def)

lemma map_of_seedMap: "map_of (seedMap ex) k = priorEntry ex k"
  by (simp add: seedMap_fold map_of_seed priorEntry_def split: option.splits)

lemma keys_seedMap: "set (map fst (seedMap ex)) = keyOf ` set (vodsOrEmpty ex)"
  by (simp add: seedMap_fold keys_seed del: set_map)

lemma distinct_seedMap: "distinct (map fst (seedMap ex))"
  by (simp add: seedMap_fold distinct_seed)

lemma keysOk_seedMap: "keysOk (seedMap ex)"
  unfolding seedMap_fold by (rule keysOk_seed) (simp add: keysOk_def)

lemma byIdSet_eq: "byIdSet ex = keyOf ` set (vodsOrEmpty ex)"
proof -
  have "\<And>vs A. fold (\<lambda>v acc. insert (rd (vod_id v)) acc) vs A = A \<union> keyOf ` set vs"
  proof -
    fix vs :: "StoredVod list" and A
    show "fold (\<lambda>v acc. insert (rd (vod_id v)) acc) vs A = A \<union> keyOf ` set vs"
      by (induction vs arbitrary: A) (auto simp: keyOf_def)
  qed
  then show ?thesis
    by (simp add: byIdSet_def vodsOrEmpty_def split: option.splits)
qed

lemma mustFetch_seed:
  "mustFetch (seedMap ex) (byIdSet ex) k = needsFileInfo (priorEntry ex k)"
proof -
  have "k \<notin> byIdSet ex \<Longrightarrow> priorEntry ex k = None"
    by (auto simp: byIdSet_eq priorEntry_def find_None_iff)
  then show ?thesis
    by (auto simp: mustFetch_def map_of_seedMap needsFileInfo_def)
qed

subsection \<open>The listing loop\<close>

lemma map_filter_normShape: "v \<in> set (List.map_filter normalizeVod raws) \<Longrightarrow> normShape v"
  by (induction raws) (auto split: option.splits dest: normalizeVod_shape)

lemma pageLoop_result:
  assumes "pageLoop pages limit t page all0 log0 = Some y"
  shows "\<forall>all log. y = Inr (all, log) \<longrightarrow> (\<forall>v\<in>set all0. normShape v)
     \<longrightarrow> (\<forall>v\<in>set all. normShape v) \<and> set log \<subseteq> set log0 \<union> {VodList t}"
  using assms
proof (induction rule: pageLoop.raw_induct [rotated 1, consumes 1, case_names step])
  case (step pageLoop pages limit target page all log y)
  have push: "\<forall>v\<in>set (pushNormalized all raws). normShape v"
    if "\<forall>v\<in>set all. normShape v" for raws
    using that by (auto simp: pushNormalized_def dest: map_filter_normShape)
  show ?case
  proof (cases "fetchVodPage (pages page)")
    case (Inl e)
    with step(2) have "y = Inl e" by simp
    then show ?thesis by simp
  next
    case (Inr list)
    show ?thesis
    proof (cases list)
      case None
      with Inr step(2) have "y = Inr (all, log @ [VodList target])" by simp
      then show ?thesis by simp
    next
      case (Some raws)
      consider (empty) "length raws = 0"
        | (short) "length raws \<noteq> 0" "int (length raws) < limit"
        | (full) "length raws \<noteq> 0" "\<not> int (length raws) < limit"
        by blast
      then show ?thesis
      proof cases
        case empty
        with Some Inr step(2) have "y = Inr (all, log @ [VodList target])" by simp
        then show ?thesis by simp
      next
        case short
        with Some Inr step(2) have "y = Inr (pushNormalized all raws, log @ [VodList target])"
          by simp
        with push [of raws] show ?thesis by simp
      next
        case full
        with Some Inr step(2) have
          "pageLoop pages limit target (page + 1) (pushNormalized all raws)
             (log @ [VodList target]) = Some y"
          by simp
        from step(1) [OF this] have ih:
          "\<forall>all' log'. y = Inr (all', log')
             \<longrightarrow> (\<forall>v\<in>set (pushNormalized all raws). normShape v)
             \<longrightarrow> (\<forall>v\<in>set all'. normShape v)
                 \<and> set log' \<subseteq> set (log @ [VodList target]) \<union> {VodList target}" .
        show ?thesis
        proof (intro allI impI)
          fix all' log'
          assume "y = Inr (all', log')" and "\<forall>v\<in>set all. normShape v"
          with ih push [of raws] have "(\<forall>v\<in>set all'. normShape v)
             \<and> set log' \<subseteq> set (log @ [VodList target]) \<union> {VodList target}"
            by blast
          then show "(\<forall>v\<in>set all'. normShape v) \<and> set log' \<subseteq> set log \<union> {VodList target}"
            by auto
        qed
      qed
    qed
  qed
qed

lemma pageLoop_start:
  assumes "pageLoop pages limit t 1 [] [] = Some (Inr (all, log))"
  shows "\<forall>v\<in>set all. normShape v" and "\<forall>k. FileInfo k \<notin> set log"
  using pageLoop_result [OF assms] by auto

subsection \<open>A successful run, taken apart\<close>

lemma main_SomeD:
  assumes "main cfg w = Some (Inr r)"
  obtains user log st base where
    "BASE cfg = Some base"
    "login cfg (loginResponse w) = Inr user"
    "pageLoop (vodPages w (username user)) (PAGE_LIMIT cfg) (username user) 1 [] []
       = Some (Inr (listedVods cfg w, log))"
    "mergeLoop w (byIdSet (snapshot w)) (listedVods cfg w)
       \<lparr> mergedById = seedMap (snapshot w), newCount = 0, refreshedCount = 0, ticks = 0,
         requests = log \<rparr> = Inr st"
    "r = finish w base (username user) st"
proof -
  let ?st0 = "\<lambda>log. \<lparr> mergedById = seedMap (snapshot w), newCount = 0, refreshedCount = 0,
      ticks = 0, requests = log \<rparr>"
  let ?base = "case BASE cfg of Some b \<Rightarrow> b | None \<Rightarrow> []"
  have env: "\<not> unset (BASE cfg)"
  proof
    assume "unset (BASE cfg)"
    then have "main cfg w = Some (Inl MissingEnv)" by (simp add: main_def)
    with assms show False by simp
  qed
  then obtain base where base: "BASE cfg = Some base"
    by (cases "BASE cfg") (simp_all add: unset_def)
  have m1: "(case warmup (warmupResponse w) of
           Inl e \<Rightarrow> Some (Inl e)
         | Inr _ \<Rightarrow>
             (case login cfg (loginResponse w) of
                Inl e \<Rightarrow> Some (Inl e)
              | Inr user \<Rightarrow>
                  (case pageLoop (vodPages w (username user)) (PAGE_LIMIT cfg) (username user)
                          1 [] [] of
                     None \<Rightarrow> None
                   | Some (Inl e) \<Rightarrow> Some (Inl e)
                   | Some (Inr (all, log)) \<Rightarrow>
                       (case mergeLoop w (byIdSet (snapshot w)) all (?st0 log) of
                          Inl e \<Rightarrow> Some (Inl e)
                        | Inr st \<Rightarrow> Some (Inr (finish w ?base (username user) st))))))
      = Some (Inr r)"
    using assms unfolding main_def Let_def by (simp split: if_splits)
  then obtain u where "warmup (warmupResponse w) = Inr u"
    by (cases "warmup (warmupResponse w)") simp_all
  with m1 have m2: "(case login cfg (loginResponse w) of
                Inl e \<Rightarrow> Some (Inl e)
              | Inr user \<Rightarrow>
                  (case pageLoop (vodPages w (username user)) (PAGE_LIMIT cfg) (username user)
                          1 [] [] of
                     None \<Rightarrow> None
                   | Some (Inl e) \<Rightarrow> Some (Inl e)
                   | Some (Inr (all, log)) \<Rightarrow>
                       (case mergeLoop w (byIdSet (snapshot w)) all (?st0 log) of
                          Inl e \<Rightarrow> Some (Inl e)
                        | Inr st \<Rightarrow> Some (Inr (finish w ?base (username user) st)))))
      = Some (Inr r)"
    by simp
  then obtain user where user: "login cfg (loginResponse w) = Inr user"
    by (cases "login cfg (loginResponse w)") simp_all
  let ?t = "username user"
  from m2 user have m3: "(case pageLoop (vodPages w ?t) (PAGE_LIMIT cfg) ?t 1 [] [] of
                     None \<Rightarrow> None
                   | Some (Inl e) \<Rightarrow> Some (Inl e)
                   | Some (Inr (all, log)) \<Rightarrow>
                       (case mergeLoop w (byIdSet (snapshot w)) all (?st0 log) of
                          Inl e \<Rightarrow> Some (Inl e)
                        | Inr st \<Rightarrow> Some (Inr (finish w ?base ?t st))))
      = Some (Inr r)"
    by simp
  then obtain all log where
    y: "pageLoop (vodPages w ?t) (PAGE_LIMIT cfg) ?t 1 [] [] = Some (Inr (all, log))"
    by (auto split: option.splits sum.splits)
  from user y have l: "listedVods cfg w = all"
    by (simp add: listedVods_def)
  from m3 y have m4: "(case mergeLoop w (byIdSet (snapshot w)) all (?st0 log) of
                          Inl e \<Rightarrow> Some (Inl e)
                        | Inr st \<Rightarrow> Some (Inr (finish w ?base ?t st)))
      = Some (Inr r)"
    by simp
  then obtain st where st: "mergeLoop w (byIdSet (snapshot w)) all (?st0 log) = Inr st"
    by (cases "mergeLoop w (byIdSet (snapshot w)) all (?st0 log)") simp_all
  with m4 base have "r = finish w base ?t st" by simp
  with that base user y l st show thesis by simp
qed

subsection \<open>Sorting\<close>

lemma set_insertSorted [simp]: "set (insertSorted cmp x ys) = insert x (set ys)"
  by (induction ys) auto

lemma jsSort_simps [simp]:
  "jsSort cmp [] = []"
  "jsSort cmp (x # xs) = insertSorted cmp x (jsSort cmp xs)"
  by (simp_all add: jsSort_def)

lemma set_jsSort [simp]: "set (jsSort cmp xs) = set xs"
  by (induction xs) simp_all

lemma length_insertSorted [simp]: "length (insertSorted cmp x ys) = Suc (length ys)"
  by (induction ys) auto

lemma length_jsSort [simp]: "length (jsSort cmp xs) = length xs"
  by (induction xs) simp_all

lemma distinct_map_insertSorted:
  "distinct (map f (insertSorted cmp x ys)) \<longleftrightarrow> f x \<notin> f ` set ys \<and> distinct (map f ys)"
  by (induction ys) auto

lemma distinct_map_jsSort: "distinct (map f (jsSort cmp xs)) \<longleftrightarrow> distinct (map f xs)"
  by (induction xs) (simp_all add: distinct_map_insertSorted)

lemma vodsOf_finish:
  "vodsOf (saved (finish w base t st))
     = jsSort (compareVods (dateParse w)) (map snd (mergedById st))"
  by (simp add: finish_def vodsOf_def Let_def)

lemma sent_finish: "sent (finish w base t st) = requests st"
  by (simp add: finish_def Let_def)

subsection \<open>The saved document\<close>

lemma rd_jsonProp [simp]: "rd (jsonProp p) = rd p"
  by (cases p) (auto simp: jsonProp_def split: jsval.splits)

lemma rdFiles_jsonFiles [simp]: "rdFiles (jsonFiles p) = rdFiles p"
  by (auto simp: jsonFiles_def rdFiles_def split: option.splits filesval.splits)

lemma jsonVod_sel [simp]:
  "vod_id (jsonVod v) = jsonProp (vod_id v)"
  "title (jsonVod v) = jsonProp (title v)"
  "channel (jsonVod v) = jsonProp (channel v)"
  "recorded_at (jsonVod v) = jsonProp (recorded_at v)"
  "created_at (jsonVod v) = jsonProp (created_at v)"
  "duration_seconds (jsonVod v) = jsonProp (duration_seconds v)"
  "twitch_id (jsonVod v) = jsonProp (twitch_id v)"
  "files (jsonVod v) = jsonFiles (files v)"
  "filesFetchedAt (jsonVod v) = jsonProp (filesFetchedAt v)"
  by (simp_all add: jsonVod_def)

lemma keyOf_jsonVod [simp]: "keyOf (jsonVod v) = keyOf v"
  by (simp add: keyOf_def)

lemma sortKey_jsonVod [simp]: "sortKey parse (jsonVod v) = sortKey parse v"
  by (simp add: sortKey_def)

lemma needsFileInfo_jsonVod [simp]: "needsFileInfo (Some (jsonVod v)) = needsFileInfo (Some v)"
  by (simp add: needsFileInfo_def)

lemma vodsOf_jsonStore: "vodsOf (jsonStore s) = map jsonVod (vodsOf s)"
  by (cases "vods s") (simp_all add: jsonStore_def vodsOf_def)

lemma vodsOrEmpty_Some: "vodsOrEmpty (Some s) = vodsOf s"
  by (simp add: vodsOrEmpty_def vodsOf_def)

text \<open>The facts about a successful run that the theorems below start from.\<close>

lemma main_run:
  assumes "main cfg w = Some (Inr r)"
  obtains log st where
    "\<forall>k. FileInfo k \<notin> set log"
    "\<forall>v\<in>set (listedVods cfg w). normShape v"
    "mergeLoop w (byIdSet (snapshot w)) (listedVods cfg w)
       \<lparr> mergedById = seedMap (snapshot w), newCount = 0, refreshedCount = 0, ticks = 0,
         requests = log \<rparr> = Inr st"
    "vodsOf (saved r) = jsSort (compareVods (dateParse w)) (map snd (mergedById st))"
    "sent r = requests st"
    "keysOk (mergedById st)"
    "distinct (map fst (mergedById st))"
    "set (map fst (mergedById st))
       = keyOf ` set (vodsOrEmpty (snapshot w)) \<union> keyOf ` set (listedVods cfg w)"
proof (rule main_SomeD [OF assms])
  fix user :: User and log and st :: LoopState and base
  assume p: "pageLoop (vodPages w (username user)) (PAGE_LIMIT cfg) (username user) 1 [] []
       = Some (Inr (listedVods cfg w, log))"
    and m: "mergeLoop w (byIdSet (snapshot w)) (listedVods cfg w)
       \<lparr> mergedById = seedMap (snapshot w), newCount = 0, refreshedCount = 0, ticks = 0,
         requests = log \<rparr> = Inr st"
    and r: "r = finish w base (username user) st"
  note ps = pageLoop_start [OF p]
  have "keysOk (mergedById st)"
    using mergeLoop_keysOk [OF m ps(1)] by (simp add: keysOk_seedMap)
  moreover have "distinct (map fst (mergedById st))"
    using mergeLoop_keys(2) [OF m] by (simp add: distinct_seedMap)
  moreover have "set (map fst (mergedById st))
       = keyOf ` set (vodsOrEmpty (snapshot w)) \<union> keyOf ` set (listedVods cfg w)"
    using mergeLoop_keys(1) [OF m] keys_seedMap [of "snapshot w"] by simp
  ultimately show thesis
    using that [OF ps(2) ps(1) m] r by (simp add: vodsOf_finish sent_finish)
qed

lemma keysOk_map_of:
  assumes "keysOk m" and "distinct (map fst m)" and "e \<in> set (map snd m)"
  shows "map_of m (keyOf e) = Some e"
proof -
  from assms(3) obtain k where "(k, e) \<in> set m" by auto
  moreover with assms(1) have "keyOf e = k" by (auto simp: keysOk_def)
  ultimately show ?thesis using assms(2) by simp
qed

lemma keysOk_keys: "keysOk m \<Longrightarrow> map keyOf (map snd m) = map fst m"
  by (induction m) (auto simp: keysOk_def)

subsection \<open>The decision to fetch\<close>

text \<open>
  C1. For every listed entry, a request for file information with its id is sent if and
  only if the prior snapshot has no entry with that id, or the prior entry (the last one
  with that id) has no file list or an empty one, or has no \<open>filesFetchedAt\<close> value that
  counts as one (the key is missing or its value is falsy, as null or the empty string).
\<close>

theorem fetch_iff_needed:
  assumes "main cfg w = Some (Inr r)" and "v \<in> set (listedVods cfg w)"
  shows "FileInfo (keyOf v) \<in> set (sent r) \<longleftrightarrow>
     (case priorEntry (snapshot w) (keyOf v) of
        None \<Rightarrow> True
      | Some e \<Rightarrow> rdFiles (files e) = None \<or> rdFiles (files e) = Some []
                 \<or> \<not> truthy (rd (filesFetchedAt e)))"
proof (rule main_run [OF assms(1)])
  fix log and st :: LoopState
  assume log: "\<forall>k. FileInfo k \<notin> set log"
    and m: "mergeLoop w (byIdSet (snapshot w)) (listedVods cfg w)
       \<lparr> mergedById = seedMap (snapshot w), newCount = 0, refreshedCount = 0, ticks = 0,
         requests = log \<rparr> = Inr st"
    and s: "sent r = requests st"
  from mergeLoop_requests [OF m] obtain ks where
    ks: "requests st = log @ map FileInfo ks"
        "set ks = {k \<in> keyOf ` set (listedVods cfg w).
                    mustFetch (seedMap (snapshot w)) (byIdSet (snapshot w)) k}"
    by auto
  from ks(1) log s have "FileInfo (keyOf v) \<in> set (sent r) \<longleftrightarrow> keyOf v \<in> set ks"
    by auto
  also from ks(2) assms(2) have "\<dots> \<longleftrightarrow> needsFileInfo (priorEntry (snapshot w) (keyOf v))"
    by (simp add: mustFetch_seed)
  finally show ?thesis
    by (auto simp: needsFileInfo_def split: option.splits)
qed

lemma ex_run: "main cfgExample exWorld = Some (Inr ex_run)"
  by code_simp

theorem fetch_iff_needed_witness:
  "main cfgExample exWorld = Some (Inr ex_run)
   \<and> ex_fresh8 \<in> set (listedVods cfgExample exWorld)
   \<and> priorEntry (snapshot exWorld) (keyOf ex_fresh8) = Some ex_old8
   \<and> rdFiles (files ex_old8) = Some []
   \<and> FileInfo (keyOf ex_fresh8) \<in> set (sent ex_run)"
proof -
  have l: "ex_fresh8 \<in> set (listedVods cfgExample exWorld)"
    by code_simp
  have p: "priorEntry (snapshot exWorld) (keyOf ex_fresh8) = Some ex_old8"
    by code_simp
  have f: "rdFiles (files ex_old8) = Some []"
    by code_simp
  from fetch_iff_needed [OF ex_run l] p f
  have "FileInfo (keyOf ex_fresh8) \<in> set (sent ex_run)" by simp
  with ex_run l p f show ?thesis by simp
qed

text \<open>
  C2. For every entry of the prior snapshot with a non-empty file list and a
  \<open>filesFetchedAt\<close> value, a run (whatever the listing returns, so also an unchanged one)
  sends no request for file information with that id, and the saved document has an entry
  with that id whose \<open>files\<close> and \<open>filesFetchedAt\<close> are those of the prior snapshot.
\<close>

theorem fresh_files_carried_forward:
  assumes "main cfg w = Some (Inr r)"
    and "priorEntry (snapshot w) k = Some e"
    and "rdFiles (files e) = Some fs" and "fs \<noteq> []"
    and "truthy (rd (filesFetchedAt e))"
  shows "FileInfo k \<notin> set (sent r)
     \<and> (\<exists>e' \<in> set (vodsOf (jsonStore (saved r))).
           keyOf e' = k \<and> files e' = files e \<and> filesFetchedAt e' = filesFetchedAt e)"
proof (rule main_run [OF assms(1)])
  fix log and st :: LoopState
  let ?S = "byIdSet (snapshot w)" and ?M = "seedMap (snapshot w)"
  assume log: "\<forall>k. FileInfo k \<notin> set log"
    and m: "mergeLoop w ?S (listedVods cfg w)
       \<lparr> mergedById = ?M, newCount = 0, refreshedCount = 0, ticks = 0,
         requests = log \<rparr> = Inr st"
    and out: "vodsOf (saved r) = jsSort (compareVods (dateParse w)) (map snd (mergedById st))"
    and s: "sent r = requests st"
    and ok: "keysOk (mergedById st)"
  have fe: "files e = Some (FilesArr fs)"
    using assms(3) by (auto simp: rdFiles_def split: option.splits filesval.splits)
  obtain t where te: "filesFetchedAt e = Some t" "truthy t"
    using assms(5) by (cases "filesFetchedAt e") auto
  have nf: "\<not> mustFetch ?M ?S k"
    using assms(2,3,4,5) by (simp add: mustFetch_seed needsFileInfo_def)
  from mergeLoop_requests [OF m] obtain ks where
    ks: "requests st = log @ map FileInfo ks"
        "set ks = {k \<in> keyOf ` set (listedVods cfg w). mustFetch ?M ?S k}"
    by auto
  with nf log s have no: "FileInfo k \<notin> set (sent r)" by auto
  have "\<exists>e'. map_of (mergedById st) k = Some e' \<and> files e' = files e
      \<and> filesFetchedAt e' = filesFetchedAt e"
  proof (cases "k \<in> keyOf ` set (listedVods cfg w)")
    case True
    from mergeLoop_files [OF m True] nf assms(2) show ?thesis
      by (auto simp: map_of_seedMap)
  next
    case False
    from mergeLoop_other [OF m] False assms(2) show ?thesis
      by (simp add: map_of_seedMap)
  qed
  then obtain e' where e': "map_of (mergedById st) k = Some e'" "files e' = files e"
    "filesFetchedAt e' = filesFetchedAt e" by blast
  from e'(1) have mem: "(k, e') \<in> set (mergedById st)" by (rule map_of_SomeD)
  with ok have "keyOf e' = k" by (auto simp: keysOk_def)
  moreover from mem out have "jsonVod e' \<in> set (vodsOf (jsonStore (saved r)))"
    by (force simp: vodsOf_jsonStore)
  moreover have "files (jsonVod e') = files e" "filesFetchedAt (jsonVod e') = filesFetchedAt e"
    using e'(2,3) fe te by (auto simp: jsonFiles_def jsonProp_def split: jsval.splits)
  ultimately show ?thesis using no by (intro conjI bexI [of _ "jsonVod e'"]) simp_all
qed

theorem fresh_files_carried_forward_witness:
  "main cfgExample exWorld = Some (Inr ex_run)
   \<and> priorEntry (snapshot exWorld) (Str ''7'') = Some c3_old
   \<and> rdFiles (files c3_old) = Some [file1]
   \<and> truthy (rd (filesFetchedAt c3_old))
   \<and> FileInfo (Str ''7'') \<notin> set (sent ex_run)
   \<and> (\<exists>e' \<in> set (vodsOf (jsonStore (saved ex_run))).
         keyOf e' = Str ''7'' \<and> files e' = files c3_old
         \<and> filesFetchedAt e' = filesFetchedAt c3_old)"
proof -
  have p: "priorEntry (snapshot exWorld) (Str ''7'') = Some c3_old"
    by code_simp
  have f: "rdFiles (files c3_old) = Some [file1]"
    by code_simp
  have t: "truthy (rd (filesFetchedAt c3_old))"
    by code_simp
  have n: "[file1] \<noteq> []" by simp
  from fresh_files_carried_forward [OF ex_run p f n t] ex_run p f t show ?thesis by simp
qed

subsection \<open>The ids of the saved snapshot\<close>

text \<open>
  C9. After every run from every prior snapshot, each id of the prior snapshot is the id
  of an entry of the saved snapshot, and the ids of the saved entries are pairwise
  distinct.
\<close>

theorem ids_kept_and_distinct:
  assumes "main cfg w = Some (Inr r)"
  shows "keyOf ` set (vodsOrEmpty (snapshot w)) \<subseteq> keyOf ` set (vodsOf (jsonStore (saved r)))
     \<and> distinct (map keyOf (vodsOf (jsonStore (saved r))))"
proof (rule main_run [OF assms])
  fix log and st :: LoopState
  assume out: "vodsOf (saved r) = jsSort (compareVods (dateParse w)) (map snd (mergedById st))"
    and ok: "keysOk (mergedById st)"
    and d: "distinct (map fst (mergedById st))"
    and k: "set (map fst (mergedById st))
       = keyOf ` set (vodsOrEmpty (snapshot w)) \<union> keyOf ` set (listedVods cfg w)"
  have ids: "map keyOf (vodsOf (jsonStore (saved r)))
      = map keyOf (jsSort (compareVods (dateParse w)) (map snd (mergedById st)))"
    by (simp add: vodsOf_jsonStore out comp_def)
  have "distinct (map keyOf (vodsOf (jsonStore (saved r))))"
    unfolding ids distinct_map_jsSort keysOk_keys [OF ok] by (rule d)
  moreover have "set (map keyOf (vodsOf (jsonStore (saved r)))) = set (map fst (mergedById st))"
    unfolding ids using keysOk_keys [OF ok] by (metis set_jsSort set_map)
  with k have "keyOf ` set (vodsOrEmpty (snapshot w))
      \<subseteq> keyOf ` set (vodsOf (jsonStore (saved r)))"
    by auto
  ultimately show ?thesis by simp
qed

theorem ids_kept_and_distinct_witness:
  "main cfgExample exWorld = Some (Inr ex_run)
   \<and> keyOf ` set (vodsOrEmpty (snapshot exWorld))
        \<subseteq> keyOf ` set (vodsOf (jsonStore (saved ex_run)))
   \<and> distinct (map keyOf (vodsOf (jsonStore (saved ex_run))))
   \<and> map keyOf (vodsOrEmpty (snapshot exWorld)) = [Str ''7'', Str ''8'']
   \<and> map keyOf (vodsOf (jsonStore (saved ex_run))) = [Str ''9'', Str ''8'', Str ''7'']"
proof -
  have a: "map keyOf (vodsOrEmpty (snapshot exWorld)) = [Str ''7'', Str ''8'']"
    by code_simp
  have b: "map keyOf (vodsOf (jsonStore (saved ex_run))) = [Str ''9'', Str ''8'', Str ''7'']"
    by code_simp
  from ids_kept_and_distinct [OF ex_run] ex_run a b show ?thesis by simp
qed

subsection \<open>New entries\<close>



subsection \<open>The order of the saved entries\<close>













subsection \<open>The overlay of a fresh entry on the prior entry\<close>

lemma mergeVodPreservingFiles_descriptive:
  assumes "normShape v"
  shows "descriptive (mergeVodPreservingFiles old v) = descriptive v"
  using assms
  by (cases old)
     (simp_all add: mergeVodPreservingFiles_def Let_def descriptive_def normShape_def over_shape)

text \<open>
  C3, as amended. When a freshly normalized entry is merged with its prior entry, in the
  merge loop and in \<open>mergeVodPreservingFiles\<close> alike, every descriptive field (title,
  channel, \<open>created_at\<close>, \<open>duration_seconds\<close>, \<open>twitch_id\<close>) is the own property of the
  fresh entry, which the normalizer always sets, also when its value is undefined: an
  undefined fresh value replaces the prior value. Only \<open>recorded_at\<close>, a key that a
  normalized entry does not have, keeps the prior value.
\<close>

theorem merge_overlay:
  assumes "normalizeVod raw = Some v" and "mergeStep w seen v st = Inr st'"
  shows "\<exists>e. map_of (mergedById st') (keyOf v) = Some e
     \<and> descriptive e = descriptive v
     \<and> recorded_at e = (case map_of (mergedById st) (keyOf v) of
                          None \<Rightarrow> None | Some old \<Rightarrow> recorded_at old)
     \<and> descriptive (mergeVodPreservingFiles (map_of (mergedById st) (keyOf v)) v)
         = descriptive v"
proof -
  have ns: "normShape v" using assms(1) by (rule normalizeVod_shape)
  from mergeStep_entry [OF assms(2)] ns obtain e where
    "map_of (mergedById st') (keyOf v) = Some e" "descriptive e = descriptive v"
    "recorded_at e = recOf (map_of (mergedById st) (keyOf v))"
    by blast
  with mergeVodPreservingFiles_descriptive [OF ns] show ?thesis
    by (auto simp: recOf_def)
qed

theorem merge_overlay_witness:
  "normalizeVod c3_raw = Some c3_fresh
   \<and> mergeStep c3_world {Str ''7''} c3_fresh c3_state
       = Inr (c3_state \<lparr> mergedById := [(Str ''7'', c3_merged)] \<rparr>)
   \<and> descriptive c3_merged = descriptive c3_fresh
   \<and> recorded_at c3_merged = recorded_at c3_old
   \<and> descriptive (mergeVodPreservingFiles (Some c3_old) c3_fresh) = descriptive c3_fresh"
proof -
  have n: "normalizeVod c3_raw = Some c3_fresh"
    by code_simp
  have m: "mergeStep c3_world {Str ''7''} c3_fresh c3_state
       = Inr (c3_state \<lparr> mergedById := [(Str ''7'', c3_merged)] \<rparr>)"
    by code_simp
  have k: "keyOf c3_fresh = Str ''7''"
    by code_simp
  have s: "mergedById c3_state = [(Str ''7'', c3_old)]"
    by (simp add: c3_state_def)
  from merge_overlay [OF n m] n m show ?thesis
    by (simp add: k s)
qed

text \<open>
  C3 as stated fails where the fresh field is undefined. The snapshot has entry \<open>7\<close> with
  the title \<open>Old title\<close>; the listing returns the entry without a title; the saved
  entry has no title.
\<close>

theorem merge_undefined_title_counterexample:
  "vodsOrEmpty (snapshot c3_world) = [c3_old]
   \<and> rd (title c3_old) = Str ''Old title''
   \<and> listedVods cfgExample c3_world = [c3_fresh]
   \<and> rd (title c3_fresh) = Undefined
   \<and> main cfgExample c3_world = Some (Inr c3_run)
   \<and> vodsOf (jsonStore (saved c3_run)) = [jsonVod c3_merged]
   \<and> title (jsonVod c3_merged) = None"
  by code_simp

subsection \<open>Two runs in succession\<close>

lemma jsonProp_idem [simp]: "jsonProp (jsonProp p) = jsonProp p"
  by (cases p) (auto simp: jsonProp_def split: jsval.splits)

lemma jsonFiles_idem [simp]: "jsonFiles (jsonFiles p) = jsonFiles p"
  by (auto simp: jsonFiles_def split: option.splits filesval.splits)

lemma jsonVod_idem [simp]: "jsonVod (jsonVod v) = jsonVod v"
  by (simp add: jsonVod_def)

lemma needsFileInfo_cong:
  "files a = files b \<Longrightarrow> filesFetchedAt a = filesFetchedAt b
   \<Longrightarrow> needsFileInfo (Some a) = needsFileInfo (Some b)"
  by (simp add: needsFileInfo_def)

lemma descriptive_eq:
  "descriptive a = descriptive b \<longleftrightarrow>
     title a = title b \<and> channel a = channel b \<and> created_at a = created_at b
     \<and> duration_seconds a = duration_seconds b \<and> twitch_id a = twitch_id b"
  by (auto simp: descriptive_def)

text \<open>
  What the first run leaves under a listed key is of one of two kinds: fetched in this
  run, or carried over from an entry that needed no request.
\<close>

lemma mergeLoop_fetched_or_fresh:
  assumes "mergeLoop w S vs st = Inr st'" and "k \<in> keyOf ` set vs"
    and "map_of (mergedById st') k = Some e"
  shows "fetchedForm w k e \<or> \<not> needsFileInfo (Some e)"
proof -
  from mergeLoop_files [OF assms(1,2)] assms(3) have
    f: "if mustFetch (mergedById st) S k then fetchedForm w k e
        else (\<exists>prev. map_of (mergedById st) k = Some prev
               \<and> files e = files prev \<and> filesFetchedAt e = filesFetchedAt prev)"
    by simp
  show ?thesis
  proof (cases "mustFetch (mergedById st) S k")
    case True
    with f show ?thesis by simp
  next
    case False
    with f obtain prev where p: "map_of (mergedById st) k = Some prev"
      "files e = files prev" "filesFetchedAt e = filesFetchedAt prev" by auto
    from False p(1) have "\<not> needsFileInfo (Some prev)" by (simp add: mustFetch_def)
    with needsFileInfo_cong [OF p(2,3)] show ?thesis by simp
  qed
qed

lemma fetchedForm_needs_empty:
  assumes "fetchedForm w k e" and "needsFileInfo (Some e)" and "\<forall>n. clock w n \<noteq> []"
  shows "rdFiles (files e) = Some []"
  using assms
  by (auto simp: fetchedForm_def needsFileInfo_def rdFiles_def split: if_splits)

text \<open>The entry under a listed key after the second run, against the one after the first.\<close>

lemma rerun_entry:
  assumes m1: "mergeLoop w S vs st = Inr st1"
    and m2: "mergeLoop w' S' vs st' = Inr st2"
    and fi: "fileInfo w' = fileInfo w"
    and ns: "\<forall>v\<in>set vs. normShape v"
    and k: "k \<in> keyOf ` set vs"
    and e1: "map_of (mergedById st1) k = Some e1"
    and p2: "map_of (mergedById st') k = Some (jsonVod e1)"
    and s2: "k \<in> S'"
    and cl: "\<forall>n. clock w n \<noteq> []"
  shows "\<exists>e2. map_of (mergedById st2) k = Some e2
     \<and> eraseStamp (jsonVod e2) = eraseStamp (jsonVod e1)"
proof -
  from k obtain l where l: "lastWith k vs = Some l"
    by (cases "lastWith k vs") (auto simp: lastWith_None_iff)
  from mergeLoop_described [OF m1 ns l] e1 have
    d1: "vod_id e1 = vod_id l" "descriptive e1 = descriptive l" by auto
  from mergeLoop_described [OF m2 ns l] p2 obtain e2 where
    e2: "map_of (mergedById st2) k = Some e2" and
    d2: "vod_id e2 = vod_id l" "descriptive e2 = descriptive l"
      "recorded_at e2 = jsonProp (recorded_at e1)"
    by (auto simp: recOf_def)
  from mergeLoop_files [OF m2 k] e2 have
    f2: "if mustFetch (mergedById st') S' k then fetchedForm w' k e2
        else (\<exists>prev. map_of (mergedById st') k = Some prev
               \<and> files e2 = files prev \<and> filesFetchedAt e2 = filesFetchedAt prev)"
    by simp
  have mf: "mustFetch (mergedById st') S' k = needsFileInfo (Some e1)"
    using p2 s2 by (simp add: mustFetch_def)
  from d1 d2 have same: "vod_id e2 = vod_id e1" "title e2 = title e1" "channel e2 = channel e1"
    "created_at e2 = created_at e1" "duration_seconds e2 = duration_seconds e1"
    "twitch_id e2 = twitch_id e1"
    by (simp_all add: descriptive_eq)
  have "eraseStamp (jsonVod e2) = eraseStamp (jsonVod e1)"
  proof (cases "needsFileInfo (Some e1)")
    case False
    with f2 mf p2 have "files e2 = jsonFiles (files e1)"
      "filesFetchedAt e2 = jsonProp (filesFetchedAt e1)" by auto
    with same d2(3) have "jsonVod e2 = jsonVod e1"
      by (simp add: jsonVod_def)
    then show ?thesis by simp
  next
    case True
    with f2 mf have ff2: "fetchedForm w' k e2" by simp
    from mergeLoop_fetched_or_fresh [OF m1 k e1] True have ff1: "fetchedForm w k e1" by simp
    from fetchedForm_needs_empty [OF ff1 True cl] have em: "rdFiles (files e1) = Some []" .
    from ff1 ff2 fi have "files e2 = files e1"
      by (auto simp: fetchedForm_def)
    with same d2(3) em show ?thesis
      by (simp add: eraseStamp_def jsonVod_def)
  qed
  with e2 show ?thesis by blast
qed

text \<open>Sorting a list in which no neighbours are out of order changes nothing.\<close>

lemma adjacentOk_tl: "adjacentOk cmp (x # r) \<Longrightarrow> adjacentOk cmp r"
  by (cases r) simp_all

lemma insertSorted_front:
  "adjacentOk cmp (x # r) \<Longrightarrow> insertSorted cmp x r = x # r"
  by (cases r) simp_all

lemma jsSort_fixed: "adjacentOk cmp xs \<Longrightarrow> jsSort cmp xs = xs"
proof (induction xs)
  case Nil
  then show ?case by simp
next
  case (Cons x r)
  from Cons.prems have "adjacentOk cmp r" by (rule adjacentOk_tl)
  with Cons.IH have "jsSort cmp r = r" by simp
  with Cons.prems show ?case by (simp add: insertSorted_front)
qed

lemma adjacentOk_insertSorted:
  assumes anti: "\<And>a b. sortCompare cmp a b > 0 \<Longrightarrow> \<not> sortCompare cmp b a > 0"
    and "adjacentOk cmp ys"
  shows "adjacentOk cmp (insertSorted cmp x ys)"
  using assms(2)
proof (induction ys)
  case Nil
  then show ?case by simp
next
  case (Cons y r)
  show ?case
  proof (cases "sortCompare cmp x y > 0")
    case False
    with Cons.prems show ?thesis by simp
  next
    case True
    from Cons.prems have r: "adjacentOk cmp r" by (rule adjacentOk_tl)
    note ih = Cons.IH [OF r]
    show ?thesis
    proof (cases r)
      case Nil
      with True anti [OF True] show ?thesis by simp
    next
      case (Cons z r')
      with True anti [OF True] ih Cons.prems show ?thesis by (cases "sortCompare cmp x z > 0") simp_all
    qed
  qed
qed

lemma adjacentOk_jsSort:
  assumes "\<And>a b. sortCompare cmp a b > 0 \<Longrightarrow> \<not> sortCompare cmp b a > 0"
  shows "adjacentOk cmp (jsSort cmp xs)"
  by (induction xs) (simp_all add: adjacentOk_insertSorted [OF assms])

lemma compareVods_anti:
  "sortCompare (compareVods p) a b > 0 \<Longrightarrow> \<not> sortCompare (compareVods p) b a > 0"
  by (auto simp: sortCompare_def compareVods_def split: option.splits)

lemma adjacentOk_keys:
  assumes "map (sortKey p) xs = map (sortKey p) ys"
  shows "adjacentOk (compareVods p) xs = adjacentOk (compareVods p) ys"
  using assms
proof (induction xs arbitrary: ys)
  case Nil
  then show ?case by simp
next
  case (Cons x r)
  from Cons.prems obtain x' r' where ys: "ys = x' # r'" and
    kx: "sortKey p x = sortKey p x'" and kr: "map (sortKey p) r = map (sortKey p) r'"
    by (cases ys) auto
  note ih = Cons.IH [OF kr]
  show ?case
  proof (cases r)
    case Nil
    with kr ys show ?thesis by simp
  next
    case (Cons y r2)
    with kr obtain y' r2' where r': "r' = y' # r2'" and ky: "sortKey p y = sortKey p y'"
      by (cases r') auto
    from kx ky have "sortCompare (compareVods p) x y = sortCompare (compareVods p) x' y'"
      by (simp add: sortCompare_def compareVods_def)
    with ih Cons r' ys show ?thesis by simp
  qed
qed

lemma eraseStamp_sortKey:
  assumes "eraseStamp (jsonVod a) = eraseStamp (jsonVod b)"
  shows "sortKey p a = sortKey p b"
proof -
  have "recorded_at (eraseStamp x) = recorded_at x" "created_at (eraseStamp x) = created_at x"
    for x by (simp_all add: eraseStamp_def)
  with assms have "jsonProp (recorded_at a) = jsonProp (recorded_at b)"
    "jsonProp (created_at a) = jsonProp (created_at b)"
    by (metis jsonVod_sel(4), metis jsonVod_sel(5))
  then have "rd (recorded_at a) = rd (recorded_at b)" "rd (created_at a) = rd (created_at b)"
    by (metis rd_jsonProp)+
  then show ?thesis by (simp add: sortKey_def)
qed

lemma map_of_keyed:
  "distinct (map f vs) \<Longrightarrow> v \<in> set vs \<Longrightarrow> map_of (map (\<lambda>v. (f v, v)) vs) (f v) = Some v"
  by (induction vs) (auto simp: rev_image_eqI)

lemma main_SomeI:
  assumes "\<not> unset (BASE cfg)" "\<not> unset (USER cfg)" "\<not> unset (PASS cfg)"
    and "warmup (warmupResponse w) = Inr u"
    and "login cfg (loginResponse w) = Inr user"
    and "pageLoop (vodPages w (username user)) (PAGE_LIMIT cfg) (username user) 1 [] []
       = Some (Inr (all, log))"
    and "mergeLoop w (byIdSet (snapshot w)) all
       \<lparr> mergedById = seedMap (snapshot w), newCount = 0, refreshedCount = 0, ticks = 0,
         requests = log \<rparr> = Inr st"
    and "BASE cfg = Some base"
  shows "main cfg w = Some (Inr (finish w base (username user) st))"
  using assms by (simp add: main_def)

lemma main_env:
  assumes "main cfg w = Some (Inr r)"
  shows "\<not> unset (BASE cfg) \<and> \<not> unset (USER cfg) \<and> \<not> unset (PASS cfg)"
    and "\<exists>u. warmup (warmupResponse w) = Inr u"
proof -
  show e: "\<not> unset (BASE cfg) \<and> \<not> unset (USER cfg) \<and> \<not> unset (PASS cfg)"
  proof (rule ccontr)
    assume "\<not> ?thesis"
    then have "main cfg w = Some (Inl MissingEnv)" by (auto simp: main_def)
    with assms show False by simp
  qed
  show "\<exists>u. warmup (warmupResponse w) = Inr u"
  proof (cases "warmup (warmupResponse w)")
    case (Inl a)
    with e have "main cfg w = Some (Inl a)" by (simp add: main_def)
    with assms show ?thesis by simp
  next
    case (Inr b)
    then show ?thesis by blast
  qed
qed

text \<open>
  C4, as amended. After a run that succeeded, a second run against the same remote state
  succeeds as well, and its document is the document of the first run except for
  \<open>meta.generatedAt\<close> and for the \<open>filesFetchedAt\<close> of the entries whose file list is
  empty: an empty list is fetched again by every run and stamped anew. This is stated for
  snapshots in which every entry has a time stamp that is a number (the order of the
  others is left to the sort implementation); the clock of the first run returns
  non-empty strings, as every ISO time stamp is.
\<close>

theorem rerun_same_document:
  assumes run1: "main cfg w = Some (Inr r1)"
    and cl: "\<forall>n. clock w n \<noteq> []"
    and num: "\<forall>e \<in> set (vodsOf (saved r1)). sortKey (dateParse w) e \<noteq> None"
  shows "\<exists>r2. main cfg (w \<lparr> snapshot := Some (jsonStore (saved r1)), clock := clock2 \<rparr>)
          = Some (Inr r2)
     \<and> exceptStamps (jsonStore (saved r2)) = exceptStamps (jsonStore (saved r1))"
proof (rule main_SomeD [OF run1])
  fix user :: User and log and st1 :: LoopState and base
  let ?w2 = "w \<lparr> snapshot := Some (jsonStore (saved r1)), clock := clock2 \<rparr>"
  let ?t = "username user"
  let ?all = "listedVods cfg w"
  let ?cmp = "compareVods (dateParse w)"
  let ?M1 = "mergedById st1"
  let ?O1 = "jsSort ?cmp (map snd ?M1)"
  let ?D1 = "Some (jsonStore (saved r1))"
  let ?M0 = "seedMap ?D1"
  let ?S = "byIdSet ?D1"
  assume base: "BASE cfg = Some base"
    and user: "login cfg (loginResponse w) = Inr user"
    and p: "pageLoop (vodPages w ?t) (PAGE_LIMIT cfg) ?t 1 [] [] = Some (Inr (?all, log))"
    and m1: "mergeLoop w (byIdSet (snapshot w)) ?all
       \<lparr> mergedById = seedMap (snapshot w), newCount = 0, refreshedCount = 0, ticks = 0,
         requests = log \<rparr> = Inr st1"
    and r1: "r1 = finish w base ?t st1"
  note ns = pageLoop_start(1) [OF p]
  have ok1: "keysOk ?M1"
    using mergeLoop_keysOk [OF m1 ns] by (simp add: keysOk_seedMap)
  have d1: "distinct (map fst ?M1)"
    using mergeLoop_keys(2) [OF m1] by (simp add: distinct_seedMap)
  have k1: "keyOf ` set ?all \<subseteq> set (map fst ?M1)"
    using mergeLoop_keys(1) [OF m1] by auto
  have out1: "vodsOf (saved r1) = ?O1"
    by (simp add: r1 vodsOf_finish)
  have prior2: "vodsOrEmpty ?D1 = map jsonVod ?O1"
    by (simp add: vodsOrEmpty_Some vodsOf_jsonStore out1)
  have keysO1: "map keyOf ?O1 = map keyOf (jsSort ?cmp (map snd ?M1))" by simp
  have dO1: "distinct (map keyOf ?O1)"
    unfolding distinct_map_jsSort keysOk_keys [OF ok1] by (rule d1)
  have setO1: "set ?O1 = set (map snd ?M1)" by simp
  have keyset: "keyOf ` set ?O1 = set (map fst ?M1)"
    using keysOk_keys [OF ok1] by (metis set_jsSort set_map)
  \<comment> \<open>the map and the id set that the second run starts from\<close>
  have seed2: "?M0 = map (\<lambda>v. (keyOf v, v)) (map jsonVod ?O1)"
    unfolding seedMap_fold prior2
    using seed_distinct [of "map jsonVod ?O1" "[]"] dO1 by (simp add: comp_def)
  have keys0: "map fst ?M0 = map keyOf ?O1"
    by (simp add: seed2 comp_def)
  have S2: "?S = set (map fst ?M1)"
    using keyset by (simp add: byIdSet_eq prior2 image_image)
  have at0: "map_of ?M0 (keyOf e) = Some (jsonVod e)" if "e \<in> set ?O1" for e
  proof -
    have "distinct (map keyOf (map jsonVod ?O1))" using dO1 by (simp add: comp_def)
    from map_of_keyed [OF this, of "jsonVod e"] that show ?thesis
      by (simp add: seed2)
  qed
  have at1: "map_of ?M1 (keyOf e) = Some e" if "e \<in> set ?O1" for e
    using keysOk_map_of [OF ok1 d1] that by simp
  have listed: "\<exists>e. e \<in> set ?O1 \<and> keyOf e = k" if "k \<in> keyOf ` set ?all" for k
  proof -
    from that k1 have "k \<in> set (map fst ?M1)" by blast
    then have "k \<in> keyOf ` set ?O1" unfolding keyset .
    then show ?thesis by blast
  qed
  \<comment> \<open>the second run completes\<close>
  let ?st0 = "\<lparr> mergedById = ?M0, newCount = 0, refreshedCount = 0, ticks = 0,
      requests = log \<rparr>"
  have "\<forall>k \<in> keyOf ` set ?all. mustFetch (mergedById ?st0) ?S k
             \<longrightarrow> (\<exists>raws. fetchFileInfo (fileInfo ?w2 k) = Inr raws)"
  proof (intro ballI impI)
    fix k assume k: "k \<in> keyOf ` set ?all" and mf: "mustFetch (mergedById ?st0) ?S k"
    from listed [OF k] obtain e where e: "e \<in> set ?O1" "keyOf e = k" by blast
    from k k1 have "k \<in> ?S" unfolding S2 by blast
    with mf at0 [OF e(1)] e(2) have "needsFileInfo (Some e)"
      by (auto simp: mustFetch_def)
    with mergeLoop_fetched_or_fresh [OF m1 k] at1 [OF e(1)] e(2) have "fetchedForm w k e"
      by auto
    then show "\<exists>raws. fetchFileInfo (fileInfo ?w2 k) = Inr raws"
      by (auto simp: fetchedForm_def)
  qed
  from mergeLoop_total [OF this] obtain st2 where
    m2: "mergeLoop ?w2 ?S ?all ?st0 = Inr st2" by blast
  let ?M2 = "mergedById st2"
  from main_env [OF run1] obtain u where
    env: "\<not> unset (BASE cfg)" "\<not> unset (USER cfg)" "\<not> unset (PASS cfg)" and
    wu: "warmup (warmupResponse w) = Inr u" by blast
  have run2: "main cfg ?w2 = Some (Inr (finish ?w2 base ?t st2))"
    by (rule main_SomeI [OF env, of _ u _ ?all log]) (use wu user p m2 base in simp_all)
  \<comment> \<open>its entries, key by key\<close>
  have keys2: "map fst ?M2 = map keyOf ?O1"
    using mergeLoop_keys(3) [OF m2] k1 keyset by (simp add: keys0)
  have d2: "distinct (map fst ?M2)"
    unfolding keys2 by (rule dO1)
  have rel: "eraseStamp (jsonVod (snd (?M2 ! i))) = eraseStamp (jsonVod (?O1 ! i))"
    if i: "i < length ?O1" for i
  proof -
    let ?e1 = "?O1 ! i" and ?k = "keyOf (?O1 ! i)"
    from i have e1: "?e1 \<in> set ?O1" by (rule nth_mem)
    from keys2 have len: "length ?M2 = length ?O1"
      by (metis length_map)
    with i have "fst (?M2 ! i) = ?k"
      using keys2 by (metis nth_map)
    moreover from i len have "?M2 ! i \<in> set ?M2" by simp
    ultimately have at2: "map_of ?M2 ?k = Some (snd (?M2 ! i))"
      using d2 by (metis map_of_is_SomeI prod.collapse)
    show ?thesis
    proof (cases "?k \<in> keyOf ` set ?all")
      case True
      have "?k \<in> ?S" using k1 True by (auto simp: S2)
      from rerun_entry [OF m1 m2 _ ns True at1 [OF e1] _ this cl] at0 [OF e1] at2
      show ?thesis by simp
    next
      case False
      from mergeLoop_other [OF m2 False] at0 [OF e1] at2
      have "snd (?M2 ! i) = jsonVod ?e1" by simp
      then show ?thesis by simp
    qed
  qed
  have len2: "length (map snd ?M2) = length ?O1"
    using keys2 by (metis length_map)
  have same: "map (eraseStamp \<circ> jsonVod) (map snd ?M2) = map (eraseStamp \<circ> jsonVod) ?O1"
    using len2 rel by (auto intro!: nth_equalityI)
  \<comment> \<open>the order is the one of the first run\<close>
  have "map (sortKey (dateParse w)) (map snd ?M2) = map (sortKey (dateParse w)) ?O1"
    using len2 rel by (auto intro!: nth_equalityI eraseStamp_sortKey)
  from adjacentOk_keys [OF this] adjacentOk_jsSort [of ?cmp, OF compareVods_anti]
  have "adjacentOk ?cmp (map snd ?M2)" by simp
  then have sorted2: "jsSort ?cmp (map snd ?M2) = map snd ?M2" by (rule jsSort_fixed)
  have "exceptStamps (jsonStore (saved (finish ?w2 base ?t st2)))
      = exceptStamps (jsonStore (saved r1))"
    using same len2
    by (simp add: r1 finish_def jsonStore_def exceptStamps_def exceptGeneratedAt_def Let_def
        sorted2 comp_assoc)
  with run2 show ?thesis by blast
qed

lemma c4_run1: "main cfgExample c4_world1 = Some (Inr c4_run1)"
  by code_simp

lemma c4_run2: "main cfgExample c4_world2 = Some (Inr c4_run2)"
  by code_simp

theorem rerun_same_document_witness:
  "main cfgExample c4_world1 = Some (Inr c4_run1)
   \<and> clock c4_world1 0 = ''2024-02-02T00:00:00.000Z''
   \<and> map (sortKey (dateParse c4_world1)) (vodsOf (saved c4_run1)) = [Some 1700000000]
   \<and> main cfgExample c4_world2 = Some (Inr c4_run2)
   \<and> exceptStamps (jsonStore (saved c4_run2)) = exceptStamps (jsonStore (saved c4_run1))"
proof -
  have c: "clock c4_world1 n = ''2024-02-02T00:00:00.000Z''" for n
    by (simp add: c4_world1_def exampleWorld_def)
  then have cl: "\<forall>n. clock c4_world1 n \<noteq> []" by simp
  have k: "map (sortKey (dateParse c4_world1)) (vodsOf (saved c4_run1)) = [Some 1700000000]"
    by code_simp
  have "sortKey (dateParse c4_world1) e \<in> set [Some 1700000000]"
    if "e \<in> set (vodsOf (saved c4_run1))" for e
    using that unfolding k [symmetric] by simp
  then have num: "\<forall>e \<in> set (vodsOf (saved c4_run1)). sortKey (dateParse c4_world1) e \<noteq> None"
    by auto
  from rerun_same_document [OF c4_run1 cl num, of c4_clock2] c4_run2
  have "exceptStamps (jsonStore (saved c4_run2)) = exceptStamps (jsonStore (saved c4_run1))"
    by (simp add: c4_world2_def)
  with c4_run1 c4_run2 c k show ?thesis by simp
qed

text \<open>
  C4 as stated fails: the two documents differ in more than \<open>meta.generatedAt\<close>. The
  entry has an empty file list, the second run fetches it again and writes a new
  \<open>filesFetchedAt\<close>.
\<close>

theorem rerun_refetch_counterexample:
  "main cfgExample c4_world1 = Some (Inr c4_run1)
   \<and> main cfgExample c4_world2 = Some (Inr c4_run2)
   \<and> exceptGeneratedAt (jsonStore (saved c4_run1))
       \<noteq> exceptGeneratedAt (jsonStore (saved c4_run2))
   \<and> map filesFetchedAt (vodsOf (jsonStore (saved c4_run1)))
       = [Some (Str ''2024-02-02T00:00:00.000Z'')]
   \<and> map filesFetchedAt (vodsOf (jsonStore (saved c4_run2)))
       = [Some (Str ''2024-02-03T00:00:00.000Z'')]"
  by code_simp

end
